theory Spec2Isabelle
  imports Complex_Main "HOL-Library.Log_Nat" "HOL-Library.Product_Lexorder"
    "HOL-Library.Signed_Division"
begin

section \<open>The data-processing script \<^verbatim>\<open>main.go\<close>: analyze, transform, aggregate\<close>

text \<open>
  The script works on \<^verbatim>\<open>[]float64\<close> and returns \<^verbatim>\<open>map[string]interface{}\<close>.
  Its arithmetic is IEEE 754 binary64 arithmetic, and several of its properties
  depend on the rounding of that arithmetic, so the numbers are modelled as binary64
  values and not as real numbers: a finite value is the rational number it denotes,
  every operation rounds its exact result to the nearest binary64 value (ties to even),
  and the two infinities and NaN are values of their own.

  Two things are left out, both without effect on this program. The two zeros are one
  value: they compare equal in Go, and the only divisors the script uses are the
  constants 1000, 100 and 2 and lengths converted from \<^verbatim>\<open>int\<close>, never a negative
  zero. The payload of a NaN is not kept.

  Two things are fixed as on amd64 with the default settings. Every operation is rounded
  on its own: \<^verbatim>\<open>value*100+0.5\<close> is a product and then a sum (the Go specification also
  lets an implementation fuse the two; the concrete values computed below are the same
  either way). \<^verbatim>\<open>int\<close> has 64 bits; lengths and counts stay far below \<open>2 ^ 63\<close> and are
  not wrapped.
\<close>

subsection \<open>binary64\<close>

datatype float64 = Fin rat | PInf | NInf | NaN

text \<open>
  \<open>expo q\<close> is the binary exponent of a non-zero rational: \<open>2 powi expo q \<le> \<bar>q\<bar> < 2 powi (expo q + 1)\<close>.
  It is computed from the bit lengths of numerator and denominator.
\<close>

definition expo :: "rat \<Rightarrow> int" where
  "expo q =
     (let (p, d) = quotient_of \<bar>q\<bar>;
          k = bitlen p - bitlen d
      in if (2::rat) powi k \<le> \<bar>q\<bar> then k else k - 1)"

text \<open>
  The spacing of binary64 values around \<open>q\<close>: 53 significant bits, and the fixed
  spacing \<open>2 powi (- 1074)\<close> of the subnormal range below \<open>2 powi (- 1022)\<close>.
\<close>

definition quantum :: "rat \<Rightarrow> rat" where
  "quantum q = (2::rat) powi (max (expo q) (- 1022) - 52)"

text \<open>Rounding a rational to the nearest integer, a tie to the even one.\<close>

definition rne :: "rat \<Rightarrow> int" where
  "rne x =
     (let f = \<lfloor>x\<rfloor>; r = x - of_int f
      in if r < 1 / 2 then f
         else if 1 / 2 < r then f + 1
         else if even f then f else f + 1)"

text \<open>Rounding to the binary64 grid, the exponent not yet bounded above.\<close>

definition round_fin :: "rat \<Rightarrow> rat" where
  "round_fin q =
     (if q = 0 then 0
      else sgn q * of_int (rne (\<bar>q\<bar> / quantum q)) * quantum q)"

definition signed_inf :: "bool \<Rightarrow> float64" where
  "signed_inf neg = (if neg then NInf else PInf)"

text \<open>
  A result whose binary exponent after rounding is 1024 or more, that is, of magnitude
  \<open>2 ^ 1024\<close> or more, overflows to the infinity of its sign.
\<close>

definition round64 :: "rat \<Rightarrow> float64" where
  "round64 q =
     (let r = round_fin q
      in if r = 0 then Fin 0
         else if 1024 \<le> expo r then signed_inf (r < 0)
         else Fin r)"

subsubsection \<open>Arithmetic\<close>

fun fneg :: "float64 \<Rightarrow> float64" where
  "fneg (Fin a) = Fin (- a)"
| "fneg PInf = NInf"
| "fneg NInf = PInf"
| "fneg NaN = NaN"

fun fadd :: "float64 \<Rightarrow> float64 \<Rightarrow> float64" where
  "fadd (Fin a) (Fin b) = round64 (a + b)"
| "fadd NaN y = NaN"
| "fadd x NaN = NaN"
| "fadd PInf NInf = NaN"
| "fadd NInf PInf = NaN"
| "fadd PInf y = PInf"
| "fadd NInf y = NInf"
| "fadd x PInf = PInf"
| "fadd x NInf = NInf"

definition fsub :: "float64 \<Rightarrow> float64 \<Rightarrow> float64" where
  "fsub x y = fadd x (fneg y)"

text \<open>The sign of a product or quotient with an infinite operand; zero counts as positive.\<close>

fun negative :: "float64 \<Rightarrow> bool" where
  "negative (Fin a) = (a < 0)"
| "negative NInf = True"
| "negative x = False"

fun fmul :: "float64 \<Rightarrow> float64 \<Rightarrow> float64" where
  "fmul (Fin a) (Fin b) = round64 (a * b)"
| "fmul NaN y = NaN"
| "fmul x NaN = NaN"
| "fmul x y =
     (if x = Fin 0 \<or> y = Fin 0 then NaN
      else signed_inf (negative x \<noteq> negative y))"

text \<open>
  Division never panics in Go: a finite non-zero value divided by zero is an infinity,
  and \<open>0 / 0\<close> is NaN.
\<close>

fun fdiv :: "float64 \<Rightarrow> float64 \<Rightarrow> float64" where
  "fdiv (Fin a) (Fin b) =
     (if b = 0 then (if a = 0 then NaN else signed_inf (a < 0))
      else round64 (a / b))"
| "fdiv NaN y = NaN"
| "fdiv x NaN = NaN"
| "fdiv (Fin a) y = Fin 0"
| "fdiv x (Fin b) = signed_inf (negative x \<noteq> (b < 0))"
| "fdiv x y = NaN"

text \<open>Comparisons: every comparison with NaN is false.\<close>

fun fle :: "float64 \<Rightarrow> float64 \<Rightarrow> bool" where
  "fle (Fin a) (Fin b) = (a \<le> b)"
| "fle NaN y = False"
| "fle x NaN = False"
| "fle NInf y = True"
| "fle x PInf = True"
| "fle x y = False"

fun flt :: "float64 \<Rightarrow> float64 \<Rightarrow> bool" where
  "flt (Fin a) (Fin b) = (a < b)"
| "flt NaN y = False"
| "flt x NaN = False"
| "flt PInf y = False"
| "flt x NInf = False"
| "flt x y = True"

definition fgt :: "float64 \<Rightarrow> float64 \<Rightarrow> bool" where
  "fgt x y = flt y x"

subsubsection \<open>Conversions\<close>

text \<open>
  \<^verbatim>\<open>float64(n)\<close> for an \<^verbatim>\<open>int\<close> \<open>n\<close> rounds to nearest; it is exact below \<open>2 ^ 53\<close>.
\<close>

definition float64_of_int :: "int \<Rightarrow> float64" where
  "float64_of_int n = round64 (of_int n)"

text \<open>
  \<^verbatim>\<open>int(x)\<close> truncates towards zero. Where the truncated value does not fit the
  64-bit \<^verbatim>\<open>int\<close>, and for the infinities and NaN, the Go specification leaves the
  result to the implementation (the conversion does not panic): the parameter \<open>oor\<close>
  is what the platform returns there.
\<close>

definition trunc :: "rat \<Rightarrow> int" where
  "trunc q = (if 0 \<le> q then \<lfloor>q\<rfloor> else \<lceil>q\<rceil>)"

definition int_of_float64 :: "(float64 \<Rightarrow> int) \<Rightarrow> float64 \<Rightarrow> int" where
  "int_of_float64 oor x =
     (case x of
        Fin q \<Rightarrow> (let t = trunc q
                  in if - (2 ^ 63) \<le> t \<and> t < 2 ^ 63 then t else oor x)
      | _ \<Rightarrow> oor x)"

subsection \<open>Numeric helpers\<close>

text \<open>\<^verbatim>\<open>func roundToTwo(value float64) float64 { return float64(int(value*100+0.5)) / 100 }\<close>\<close>

definition roundToTwo :: "(float64 \<Rightarrow> int) \<Rightarrow> float64 \<Rightarrow> float64" where
  "roundToTwo oor v =
     fdiv (float64_of_int (int_of_float64 oor (fadd (fmul v (Fin 100)) (Fin (1 / 2))))) (Fin 100)"


subsection \<open>Results, panics, slices\<close>

text \<open>
  A result is a \<^verbatim>\<open>map[string]interface{}\<close>: a finite map from field names to values
  of the kinds the script stores.
\<close>

datatype val =
    VInt int
  | VFloat float64
  | VStr string
  | VFloats "float64 list"
  | VCounts "string \<Rightarrow> int option"
  | VPercents "string \<Rightarrow> float64 option"
  | VObjs "(string \<Rightarrow> val option) list"

type_synonym result = "string \<Rightarrow> val option"

text \<open>The run-time panics the code can raise.\<close>

datatype panic = IndexOutOfRange | SliceBounds | DivideByZero

definition then_do :: "panic + 'a \<Rightarrow> ('a \<Rightarrow> panic + 'b) \<Rightarrow> panic + 'b" where
  "then_do m f = (case m of Inl e \<Rightarrow> Inl e | Inr x \<Rightarrow> f x)"

definition len :: "'a list \<Rightarrow> int" where
  "len xs = int (length xs)"

text \<open>\<^verbatim>\<open>xs[i]\<close> panics outside \<open>0 \<le> i < len(xs)\<close>.\<close>

definition index :: "'a list \<Rightarrow> int \<Rightarrow> panic + 'a" where
  "index xs i = (if 0 \<le> i \<and> i < len xs then Inr (xs ! nat i) else Inl IndexOutOfRange)"

text \<open>\<^verbatim>\<open>xs[lo:hi]\<close> panics unless \<open>0 \<le> lo \<le> hi \<le> cap(xs)\<close>; here \<open>cap = len\<close>.\<close>

definition slice :: "'a list \<Rightarrow> int \<Rightarrow> int \<Rightarrow> panic + 'a list" where
  "slice xs lo hi =
     (if 0 \<le> lo \<and> lo \<le> hi \<and> hi \<le> len xs
      then Inr (take (nat (hi - lo)) (drop (nat lo) xs))
      else Inl SliceBounds)"

text \<open>
  \<^verbatim>\<open>sort.Float64s\<close> sorts in increasing order, NaN before every other value.
\<close>

fun sort_rank :: "float64 \<Rightarrow> nat \<times> rat" where
  "sort_rank NaN = (0, 0)"
| "sort_rank NInf = (1, 0)"
| "sort_rank (Fin q) = (2, q)"
| "sort_rank PInf = (3, 0)"

definition Float64s :: "float64 list \<Rightarrow> float64 list" where
  "Float64s xs = sort_key sort_rank xs"

subsection \<open>calculateMedian, processBatch\<close>

definition calculateMedian :: "float64 list \<Rightarrow> panic + float64" where
  "calculateMedian sortedData =
     (let n = len sortedData
      in if n smod 2 = 0
         then then_do (index sortedData (n sdiv 2 - 1)) (\<lambda>a.
              then_do (index sortedData (n sdiv 2)) (\<lambda>b.
              Inr (fdiv (fadd a b) (Fin 2))))
         else index sortedData (n sdiv 2))"

text \<open>\<^verbatim>\<open>sum := 0.0; for _, value := range xs { sum += value }\<close>\<close>

definition sum_loop :: "float64 list \<Rightarrow> float64" where
  "sum_loop xs = fold (\<lambda>value sum. fadd sum value) xs (Fin 0)"

definition processBatch :: "(float64 \<Rightarrow> int) \<Rightarrow> float64 list \<Rightarrow> int \<Rightarrow> result" where
  "processBatch oor batch batchNum =
     (let sum = sum_loop batch
      in [''batch_number'' \<mapsto> VInt batchNum,
          ''size'' \<mapsto> VInt (len batch),
          ''sum'' \<mapsto> VFloat (roundToTwo oor sum),
          ''average'' \<mapsto> VFloat (roundToTwo oor (fdiv sum (float64_of_int (len batch))))])"

subsection \<open>analyzeData\<close>

text \<open>Lines 100 to 123: the statistics, from the data and its sorted copy.\<close>

definition analyze_stats :: "(float64 \<Rightarrow> int) \<Rightarrow> float64 list \<Rightarrow> float64 list \<Rightarrow> panic + result" where
  "analyze_stats oor data sortedData =
     then_do (index sortedData 0) (\<lambda>min.
     then_do (index sortedData (len sortedData - 1)) (\<lambda>max.
     let sum = sum_loop data;
         mean = fdiv sum (float64_of_int (len data))
     in then_do (calculateMedian sortedData) (\<lambda>median.
        then_do (index sortedData (len sortedData sdiv 4)) (\<lambda>p25.
        then_do (index sortedData ((3 * len sortedData) sdiv 4)) (\<lambda>p75.
        Inr [''type'' \<mapsto> VStr ''analysis'',
             ''count'' \<mapsto> VInt (len data),
             ''sum'' \<mapsto> VFloat (roundToTwo oor sum),
             ''mean'' \<mapsto> VFloat (roundToTwo oor mean),
             ''median'' \<mapsto> VFloat (roundToTwo oor median),
             ''min'' \<mapsto> VFloat min,
             ''max'' \<mapsto> VFloat max,
             ''range'' \<mapsto> VFloat (fsub max min),
             ''percentile_25'' \<mapsto> VFloat p25,
             ''percentile_75'' \<mapsto> VFloat p75])))))"

text \<open>
  On values: the sorted copy is a new list, and \<open>batchSize\<close> is not used.
\<close>

definition analyzeData :: "(float64 \<Rightarrow> int) \<Rightarrow> float64 list \<Rightarrow> int \<Rightarrow> panic + result" where
  "analyzeData oor data batchSize =
     (if len data = 0 then Inr [''error'' \<mapsto> VStr ''no data to analyze'']
      else analyze_stats oor data (Float64s data))"

text \<open>
  On memory, for what the call does to the caller's slice: a store of backing
  arrays, \<^verbatim>\<open>make\<close> allocating the next free address, \<^verbatim>\<open>copy\<close> writing into the
  destination and \<^verbatim>\<open>sort.Float64s\<close> sorting its argument in place. A reference that is
  not allocated is the nil slice, of length 0.
\<close>

record memory =
  arrays :: "nat \<Rightarrow> float64 list option"
  next_free :: nat

definition deref :: "memory \<Rightarrow> nat \<Rightarrow> float64 list" where
  "deref m r = (case arrays m r of None \<Rightarrow> [] | Some xs \<Rightarrow> xs)"

definition store :: "memory \<Rightarrow> nat \<Rightarrow> float64 list \<Rightarrow> memory" where
  "store m r xs = m\<lparr>arrays := (arrays m)(r \<mapsto> xs)\<rparr>"

definition make :: "memory \<Rightarrow> nat \<Rightarrow> memory \<times> nat" where
  "make m n = (store m (next_free m) (replicate n (Fin 0)) \<lparr>next_free := Suc (next_free m)\<rparr>, next_free m)"

definition copy :: "memory \<Rightarrow> nat \<Rightarrow> nat \<Rightarrow> memory" where
  "copy m dst src =
     (let k = min (length (deref m dst)) (length (deref m src))
      in store m dst (take k (deref m src) @ drop k (deref m dst)))"

definition Float64s_mem :: "memory \<Rightarrow> nat \<Rightarrow> memory" where
  "Float64s_mem m r = store m r (Float64s (deref m r))"

definition analyzeData_mem ::
  "(float64 \<Rightarrow> int) \<Rightarrow> memory \<Rightarrow> nat \<Rightarrow> int \<Rightarrow> memory \<times> (panic + result)" where
  "analyzeData_mem oor m data batchSize =
     (if len (deref m data) = 0 then (m, Inr [''error'' \<mapsto> VStr ''no data to analyze''])
      else
        let (m1, sortedData) = make m (length (deref m data));
            m2 = copy m1 sortedData data;
            m3 = Float64s_mem m2 sortedData
        in (m3, analyze_stats oor (deref m3 data) (deref m3 sortedData)))"

subsection \<open>transformData\<close>

text \<open>
  The body of the inner loop: normalise to the 0 to 100 scale, clamp above, round.
  \<^verbatim>\<open>normalized := (value / 1000.0) * 100.0; if normalized > 100 { normalized = 100 }\<close>
\<close>

definition normalize :: "(float64 \<Rightarrow> int) \<Rightarrow> float64 \<Rightarrow> float64" where
  "normalize oor value =
     (let normalized = fmul (fdiv value (Fin 1000)) (Fin 100);
          normalized = (if fgt normalized (Fin 100) then Fin 100 else normalized)
      in roundToTwo oor normalized)"

definition normalize_batch :: "(float64 \<Rightarrow> int) \<Rightarrow> float64 list \<Rightarrow> float64 list \<Rightarrow> float64 list" where
  "normalize_batch oor batch transformed =
     fold (\<lambda>value transformed. transformed @ [normalize oor value]) batch transformed"

text \<open>
  \<^verbatim>\<open>for i := 0; i < len(data); i += batchSize\<close>, with the two accumulators. The slice
  expression is evaluated first and panics for a negative \<open>batchSize\<close>; the batch
  number \<^verbatim>\<open>i/batchSize+1\<close> panics for \<open>batchSize = 0\<close>. The \<^verbatim>\<open>int\<close> arithmetic is
  not wrapped: \<open>i + batchSize\<close> stays below twice the length of the slice whenever
  it is computed after the first round.
\<close>

function transform_loop ::
  "(float64 \<Rightarrow> int) \<Rightarrow> float64 list \<Rightarrow> int \<Rightarrow> int \<Rightarrow> float64 list \<times> result list
     \<Rightarrow> panic + float64 list \<times> result list" where
  "transform_loop oor data batchSize i acc =
     (if i < len data then
        (let end = (if i + batchSize > len data then len data else i + batchSize)
         in case slice data i end of
              Inl e \<Rightarrow> Inl e
            | Inr batch \<Rightarrow>
                if batchSize = 0 then Inl DivideByZero
                else transform_loop oor data batchSize (i + batchSize)
                       (normalize_batch oor batch (fst acc),
                        snd acc @ [processBatch oor batch (i sdiv batchSize + 1)]))
      else Inr acc)"
  by pat_completeness auto
termination
proof (relation "measure (\<lambda>(oor, data, batchSize, i, acc). nat (len data - i))")
  show "wf (measure (\<lambda>(oor, data, batchSize, i, acc). nat (len data - i)))"
    by simp
next
  fix oor :: "float64 \<Rightarrow> int" and data :: "float64 list" and batchSize i :: int
    and acc :: "float64 list \<times> result list" and x batch
  assume "i < len data"
    and x: "x = (if len data < i + batchSize then len data else i + batchSize)"
    and s: "slice data i x = Inr batch" and "batchSize \<noteq> 0"
  from s have "i \<le> x"
    by (simp add: slice_def split: if_splits)
  with x \<open>i < len data\<close> \<open>batchSize \<noteq> 0\<close> have "0 < batchSize"
    by (simp split: if_splits)
  with \<open>i < len data\<close>
  show "((oor, data, batchSize, i + batchSize,
          normalize_batch oor batch (fst acc),
          snd acc @ [processBatch oor batch (i sdiv batchSize + 1)]),
         (oor, data, batchSize, i, acc))
        \<in> measure (\<lambda>(oor, data, batchSize, i, acc). nat (len data - i))"
    by simp
qed

definition transformData :: "(float64 \<Rightarrow> int) \<Rightarrow> float64 list \<Rightarrow> int \<Rightarrow> panic + result" where
  "transformData oor data batchSize =
     then_do (transform_loop oor data batchSize 0 ([], [])) (\<lambda>(transformed, batches).
     Inr [''type'' \<mapsto> VStr ''transformation'',
          ''original_count'' \<mapsto> VInt (len data),
          ''transformed'' \<mapsto> VFloats transformed,
          ''batch_results'' \<mapsto> VObjs batches,
          ''batches_processed'' \<mapsto> VInt (len batches)])"

text \<open>
  The slices \<^verbatim>\<open>data[i:end]\<close> that the loop hands to \<^verbatim>\<open>processBatch\<close>, from index \<open>i\<close>
  on, for a positive \<open>batchSize\<close>.
\<close>

function batch_slices :: "float64 list \<Rightarrow> int \<Rightarrow> int \<Rightarrow> float64 list list" where
  "batch_slices data batchSize i =
     (if 0 \<le> i \<and> i < len data \<and> 0 < batchSize
      then take (nat batchSize) (drop (nat i) data) # batch_slices data batchSize (i + batchSize)
      else [])"
  by pat_completeness auto
termination
  by (relation "measure (\<lambda>(data, batchSize, i). nat (len data - i))") auto

subsection \<open>aggregateData\<close>

text \<open>The \<^verbatim>\<open>switch\<close> of the counting loop: the first case that holds.\<close>

definition bucket :: "float64 \<Rightarrow> string" where
  "bucket value =
     (if fle value (Fin 25) then ''0-25''
      else if fle value (Fin 50) then ''26-50''
      else if fle value (Fin 75) then ''51-75''
      else if fle value (Fin 100) then ''76-100''
      else ''100+'')"

definition bucket_keys :: "string list" where
  "bucket_keys = [''0-25'', ''26-50'', ''51-75'', ''76-100'', ''100+'']"

definition initial_ranges :: "string \<Rightarrow> int option" where
  "initial_ranges = [''0-25'' \<mapsto> 0, ''26-50'' \<mapsto> 0, ''51-75'' \<mapsto> 0, ''76-100'' \<mapsto> 0, ''100+'' \<mapsto> 0]"

text \<open>\<^verbatim>\<open>ranges[key]++\<close>: a missing key reads as 0.\<close>

definition incr :: "(string \<Rightarrow> int option) \<Rightarrow> string \<Rightarrow> (string \<Rightarrow> int option)" where
  "incr ranges key = ranges(key \<mapsto> (case ranges key of None \<Rightarrow> 0 | Some c \<Rightarrow> c) + 1)"

definition count_ranges :: "float64 list \<Rightarrow> (string \<Rightarrow> int option)" where
  "count_ranges data = fold (\<lambda>value ranges. incr ranges (bucket value)) data initial_ranges"

text \<open>
  A \<^verbatim>\<open>for key, count := range m\<close> loop visits the entries of a Go map in an order
  that the language leaves unspecified and that changes from one run to the next. The
  order of one execution of such a loop is a parameter: a list of keys, of which the
  loop visits those that the map holds.
\<close>

definition iteration_order :: "('k \<Rightarrow> 'v option) \<Rightarrow> 'k list \<Rightarrow> bool" where
  "iteration_order m order = (distinct order \<and> set order = dom m)"

definition percentage :: "(float64 \<Rightarrow> int) \<Rightarrow> int \<Rightarrow> int \<Rightarrow> float64" where
  "percentage oor count total_n =
     roundToTwo oor (fmul (fdiv (float64_of_int count) (float64_of_int total_n)) (Fin 100))"

definition percentages_loop ::
  "(float64 \<Rightarrow> int) \<Rightarrow> string list \<Rightarrow> (string \<Rightarrow> int option) \<Rightarrow> int \<Rightarrow> (string \<Rightarrow> float64 option)" where
  "percentages_loop oor order ranges total_n =
     fold (\<lambda>key percentages.
             case ranges key of
               None \<Rightarrow> percentages
             | Some count \<Rightarrow> percentages(key \<mapsto> percentage oor count total_n))
          order Map.empty"

definition findLargestGroup :: "string list \<Rightarrow> (string \<Rightarrow> int option) \<Rightarrow> string" where
  "findLargestGroup order ranges =
     snd (fold (\<lambda>key (maxCount, maxKey).
                  case ranges key of
                    None \<Rightarrow> (maxCount, maxKey)
                  | Some count \<Rightarrow> if count > maxCount then (count, key) else (maxCount, maxKey))
               order (0, []))"

text \<open>
  \<open>order_pct\<close> is the iteration order of the percentage loop, \<open>order_max\<close> that of
  the loop in \<^verbatim>\<open>findLargestGroup\<close>; \<open>batchSize\<close> is not used.
\<close>

definition aggregateData ::
  "(float64 \<Rightarrow> int) \<Rightarrow> string list \<Rightarrow> string list \<Rightarrow> float64 list \<Rightarrow> int \<Rightarrow> result" where
  "aggregateData oor order_pct order_max data batchSize =
     (let ranges = count_ranges data;
          total = len data;
          percentages = percentages_loop oor order_pct ranges total
      in [''type'' \<mapsto> VStr ''aggregation'',
          ''total_count'' \<mapsto> VInt total,
          ''ranges'' \<mapsto> VCounts ranges,
          ''percentages'' \<mapsto> VPercents percentages,
          ''largest_group'' \<mapsto> VStr (findLargestGroup order_max ranges)])"

subsection \<open>The dispatcher\<close>

text \<open>The \<^verbatim>\<open>switch operation\<close> of \<^verbatim>\<open>main\<close>.\<close>

definition dispatch ::
  "(float64 \<Rightarrow> int) \<Rightarrow> string list \<Rightarrow> string list \<Rightarrow> string \<Rightarrow> float64 list \<Rightarrow> int
     \<Rightarrow> panic + result" where
  "dispatch oor order_pct order_max operation rawData batchSize =
     (if operation = ''analyze'' then analyzeData oor rawData batchSize
      else if operation = ''transform'' then transformData oor rawData batchSize
      else if operation = ''aggregate''
        then Inr (aggregateData oor order_pct order_max rawData batchSize)
      else analyzeData oor rawData batchSize)"

subsection \<open>Reading a result; concrete parameters\<close>

text \<open>The field \<open>key\<close> of the result of a call, if the call returned.\<close>

definition field_of :: "panic + result \<Rightarrow> string \<Rightarrow> val option" where
  "field_of res key = (case res of Inl e \<Rightarrow> None | Inr r \<Rightarrow> r key)"

text \<open>
  One implementation of the out-of-range conversion: on amd64 the instruction
  \<^verbatim>\<open>CVTTSD2SQ\<close> returns \<open>- 2 ^ 63\<close> for NaN and for every value outside the
  \<^verbatim>\<open>int64\<close> range.
\<close>

definition oor_amd64 :: "float64 \<Rightarrow> int" where
  "oor_amd64 x = - (2 ^ 63)"

text \<open>
  The specification's rounding to two decimals, on exact numbers: "multiply by 100, add
  0.5, truncate, divide by 100".
\<close>

definition round_2dp :: "rat \<Rightarrow> rat" where
  "round_2dp x = of_int (trunc (x * 100 + 1 / 2)) / 100"

text \<open>
  The specification's "bucket with the strictly largest count": a key whose count is
  greater than the count of every other key.
\<close>

definition strictly_largest :: "(string \<Rightarrow> int option) \<Rightarrow> string \<Rightarrow> bool" where
  "strictly_largest ranges k =
     (\<exists>c. ranges k = Some c \<and> (\<forall>k' c'. k' \<noteq> k \<and> ranges k' = Some c' \<longrightarrow> c' < c))"

text \<open>
  A finite binary64 value of magnitude below \<open>2 ^ 1023\<close>: the sum of two such values
  does not overflow.
\<close>

definition small_double :: "float64 \<Rightarrow> bool" where
  "small_double x = (case x of Fin q \<Rightarrow> round64 q = Fin q \<and> \<bar>q\<bar> < 2 ^ 1023 | _ \<Rightarrow> False)"

section \<open>Properties\<close>

subsection \<open>Rounding to binary64\<close>


lemma pow2_pos: "0 < (2::rat) powi k"
  by (simp add: zero_less_power_int)

lemma bitlen_powi:
  assumes "0 < (p::int)"
  shows "(2::rat) powi (bitlen p - 1) \<le> of_int p" and "of_int p < (2::rat) powi bitlen p"
proof -
  from assms have b1: "1 \<le> bitlen p"
    by (metis bitlen_eq_zero_iff bitlen_nonneg int_one_le_iff_zero_less order_less_le not_le)
  from bitlen_bounds[OF assms] have lo: "(2::int) ^ nat (bitlen p - 1) \<le> p" and hi: "p < 2 ^ nat (bitlen p)"
    by auto
  have "(2::rat) powi (bitlen p - 1) = 2 ^ nat (bitlen p - 1)"
    using b1 by (simp add: power_int_def)
  also have "\<dots> = of_int (2 ^ nat (bitlen p - 1))" by simp
  also have "\<dots> \<le> of_int p" using lo by (simp only: of_int_le_iff)
  finally show "(2::rat) powi (bitlen p - 1) \<le> of_int p" .
  have "(of_int p :: rat) < of_int (2 ^ nat (bitlen p))" using hi by (simp only: of_int_less_iff)
  also have "\<dots> = 2 ^ nat (bitlen p)" by simp
  also have "\<dots> = (2::rat) powi bitlen p" using b1 by (simp add: power_int_def)
  finally show "of_int p < (2::rat) powi bitlen p" .
qed

lemma expo_bounds:
  assumes "q \<noteq> 0"
  shows "(2::rat) powi expo q \<le> \<bar>q\<bar>" and "\<bar>q\<bar> < (2::rat) powi (expo q + 1)"
proof -
  obtain p d where pd: "quotient_of \<bar>q\<bar> = (p, d)" by (cases "quotient_of \<bar>q\<bar>")
  have d: "0 < d" using pd quotient_of_denom_pos by blast
  have q: "\<bar>q\<bar> = of_int p / of_int d" using pd quotient_of_div by blast
  have "0 < \<bar>q\<bar>" using assms by simp
  then have p: "0 < p" using q d by (simp add: zero_less_divide_iff)
  define k where "k = bitlen p - bitlen d"
  have dpos: "0 < (of_int d :: rat)" using d by simp
  have lo: "(2::rat) powi (k - 1) \<le> \<bar>q\<bar>"
  proof -
    have "(2::rat) powi (k - 1) * of_int d \<le> 2 powi (k - 1) * 2 powi bitlen d"
      using bitlen_powi(2)[OF d] pow2_pos[of "k - 1"] by (simp add: mult_left_mono less_imp_le)
    also have "\<dots> = 2 powi (bitlen p - 1)"
      by (simp add: k_def power_int_add[symmetric] algebra_simps)
    also have "\<dots> \<le> of_int p" by (rule bitlen_powi(1)[OF p])
    finally show ?thesis using dpos by (simp add: q pos_le_divide_eq)
  qed
  have hi: "\<bar>q\<bar> < (2::rat) powi (k + 1)"
  proof -
    have "of_int p < (2::rat) powi bitlen p" by (rule bitlen_powi(2)[OF p])
    also have "\<dots> = 2 powi (k + 1) * 2 powi (bitlen d - 1)"
      by (simp add: k_def power_int_add[symmetric] algebra_simps)
    also have "\<dots> \<le> 2 powi (k + 1) * of_int d"
      using bitlen_powi(1)[OF d] pow2_pos[of "k + 1"] by (simp add: mult_left_mono less_imp_le)
    finally show ?thesis using dpos by (simp add: q pos_divide_less_eq)
  qed
  have e: "expo q = (if (2::rat) powi k \<le> \<bar>q\<bar> then k else k - 1)"
    by (simp add: expo_def pd k_def Let_def)
  show "(2::rat) powi expo q \<le> \<bar>q\<bar>" using lo by (simp add: e)
  show "\<bar>q\<bar> < (2::rat) powi (expo q + 1)" using hi by (auto simp: e)
qed

lemma pow2_less_imp: "(2::rat) powi a < 2 powi b \<Longrightarrow> a < b"
  using power_int_increasing[of b a "2::rat"] by (cases "a < b") auto

lemma expo_unique:
  assumes "(2::rat) powi e \<le> \<bar>q\<bar>" and "\<bar>q\<bar> < 2 powi (e + 1)"
  shows "expo q = e"
proof -
  have "0 < \<bar>q\<bar>" using assms(1) pow2_pos[of e] by linarith
  then have q: "q \<noteq> 0" by simp
  have "(2::rat) powi e < 2 powi (expo q + 1)"
    using assms(1) expo_bounds(2)[OF q] by simp
  then have a: "e < expo q + 1" by (rule pow2_less_imp)
  have "(2::rat) powi expo q < 2 powi (e + 1)"
    using assms(2) expo_bounds(1)[OF q] by simp
  then have "expo q < e + 1" by (rule pow2_less_imp)
  with a show ?thesis by simp
qed


lemma expo_minus: "expo (- q) = expo q"
  by (simp add: expo_def)

lemma expo_abs: "expo \<bar>q\<bar> = expo q"
  by (simp add: expo_def)

lemma quantum_minus: "quantum (- q) = quantum q"
  by (simp add: quantum_def expo_minus)

lemma quantum_pos: "0 < quantum q"
  by (simp add: quantum_def pow2_pos)

lemma expo_mono:
  assumes "0 < x" and "x \<le> y"
  shows "expo x \<le> expo y"
proof -
  have x: "x \<noteq> 0" and y: "y \<noteq> 0" using assms by auto
  have "(2::rat) powi expo x \<le> \<bar>x\<bar>" by (rule expo_bounds(1)[OF x])
  also have "\<dots> \<le> \<bar>y\<bar>" using assms by simp
  also have "\<dots> < 2 powi (expo y + 1)" by (rule expo_bounds(2)[OF y])
  finally have "expo x < expo y + 1" by (rule pow2_less_imp)
  then show ?thesis by simp
qed

lemma rne_of_int: "rne (of_int n) = n"
  by (simp add: rne_def)

lemma rne_lower: "\<lfloor>x\<rfloor> \<le> rne x"
  by (simp add: rne_def Let_def)

lemma rne_upper: "rne x \<le> \<lfloor>x\<rfloor> + 1"
  by (simp add: rne_def Let_def)

lemma rne_mono:
  assumes "x \<le> y"
  shows "rne x \<le> rne y"
proof -
  have f: "\<lfloor>x\<rfloor> \<le> \<lfloor>y\<rfloor>" using assms by (rule floor_mono)
  show ?thesis
  proof (cases "\<lfloor>x\<rfloor> = \<lfloor>y\<rfloor>")
    case True
    then show ?thesis using assms by (auto simp: rne_def Let_def)
  next
    case False
    with f have "\<lfloor>x\<rfloor> + 1 \<le> \<lfloor>y\<rfloor>" by simp
    then show ?thesis using rne_upper[of x] rne_lower[of y] by linarith
  qed
qed

lemma rne_ge: "of_int a \<le> x \<Longrightarrow> a \<le> rne x"
  using rne_mono[of "of_int a" x] by (simp add: rne_of_int)

lemma rne_le: "x \<le> of_int b \<Longrightarrow> rne x \<le> b"
  using rne_mono[of x "of_int b"] by (simp add: rne_of_int)

lemma round_fin_minus: "round_fin (- q) = - round_fin q"
  by (simp add: round_fin_def quantum_minus sgn_minus)

lemma round_fin_pos: "0 < q \<Longrightarrow> round_fin q = of_int (rne (q / quantum q)) * quantum q"
  by (simp add: round_fin_def)

lemma round_fin_nonneg: "0 \<le> q \<Longrightarrow> 0 \<le> round_fin q"
proof (cases "q = 0")
  case True then show ?thesis by (simp add: round_fin_def)
next
  case False
  assume "0 \<le> q"
  with False have q: "0 < q" by simp
  have "0 \<le> q / quantum q" using q quantum_pos[of q] by simp
  then have "0 \<le> rne (q / quantum q)" using rne_ge[of 0] by simp
  then show ?thesis using quantum_pos[of q] by (simp add: round_fin_pos[OF q])
qed

text \<open>
  Evaluation with the exponent given: the rounding of a concrete rational is then a matter
  of numeral arithmetic.
\<close>

lemma round_fin_cert:
  assumes "(2::rat) powi e \<le> \<bar>q\<bar>" and "\<bar>q\<bar> < 2 powi (e + 1)"
  shows "round_fin q = sgn q * of_int (rne (\<bar>q\<bar> / 2 powi (max e (- 1022) - 52))) * 2 powi (max e (- 1022) - 52)"
proof -
  have e: "expo q = e" by (rule expo_unique[OF assms])
  have "0 < \<bar>q\<bar>" using assms(1) pow2_pos[of e] by linarith
  then have q: "q \<noteq> 0" by simp
  show ?thesis using q by (simp add: round_fin_def quantum_def e)
qed

lemma overflow_iff:
  assumes "r \<noteq> 0"
  shows "1024 \<le> expo r \<longleftrightarrow> 2 ^ 1024 \<le> \<bar>r\<bar>"
proof
  assume "1024 \<le> expo r"
  then have "(2::rat) powi 1024 \<le> 2 powi expo r" by (intro power_int_increasing) auto
  also have "\<dots> \<le> \<bar>r\<bar>" by (rule expo_bounds(1)[OF assms])
  finally show "2 ^ 1024 \<le> \<bar>r\<bar>" by simp
next
  assume "2 ^ 1024 \<le> \<bar>r\<bar>"
  then have "(2::rat) powi 1024 \<le> \<bar>r\<bar>" by simp
  also have "\<dots> < 2 powi (expo r + 1)" by (rule expo_bounds(2)[OF assms])
  finally have "1024 < expo r + 1" by (rule pow2_less_imp)
  then show "1024 \<le> expo r" by simp
qed

lemma round64_cert:
  assumes "(2::rat) powi e \<le> \<bar>q\<bar>" and "\<bar>q\<bar> < 2 powi (e + 1)"
    and "r = sgn q * of_int (rne (\<bar>q\<bar> / 2 powi (max e (- 1022) - 52))) * 2 powi (max e (- 1022) - 52)"
    and "\<bar>r\<bar> < 2 ^ 1024"
  shows "round64 q = Fin r"
proof -
  have r: "round_fin q = r" using round_fin_cert[OF assms(1,2)] assms(3) by simp
  show ?thesis
  proof (cases "r = 0")
    case True
    then show ?thesis by (simp add: round64_def r)
  next
    case False
    then have "\<not> 1024 \<le> expo r" using overflow_iff[OF False] assms(4) by simp
    then show ?thesis using False by (simp add: round64_def r)
  qed
qed




lemma floor_rat_numeral_div:
  "\<lfloor>(numeral a :: rat) / numeral b\<rfloor> = numeral a div numeral b"
  "\<lfloor>- (numeral a :: rat) / numeral b\<rfloor> = - numeral a div numeral b"
  using floor_divide_of_int_eq[of "numeral a" "numeral b", where ?'a = rat]
    floor_divide_of_int_eq[of "- numeral a" "numeral b", where ?'a = rat]
  by simp_all

lemmas r64 = rne_def Let_def floor_rat_numeral_div

subsection \<open>analyzeData on the empty dataset\<close>

text \<open>
  Claim C2. For the empty dataset \<^verbatim>\<open>analyzeData\<close> returns normally (it does not panic), and
  the result has exactly one field, \<^verbatim>\<open>error\<close>, holding \<^verbatim>\<open>"no data to analyze"\<close>; so it
  has none of the statistical fields.
\<close>

theorem analyzeData_empty:
  "\<exists>r. analyzeData oor [] batchSize = Inr r \<and> dom r = {''error''} \<and>
       r ''error'' = Some (VStr ''no data to analyze'')"
  by (simp add: analyzeData_def len_def)

subsection \<open>The dispatcher\<close>

text \<open>
  Claim C8. The dispatcher calls \<^verbatim>\<open>analyzeData\<close> for the tag \<^verbatim>\<open>analyze\<close>, \<^verbatim>\<open>transformData\<close>
  for \<^verbatim>\<open>transform\<close>, \<^verbatim>\<open>aggregateData\<close> for \<^verbatim>\<open>aggregate\<close>, and \<^verbatim>\<open>analyzeData\<close> again for
  every other string: one of the three operations runs for every tag.
\<close>

theorem dispatch_cases:
  "(operation = ''analyze'' \<longrightarrow>
      dispatch oor order_pct order_max operation rawData batchSize = analyzeData oor rawData batchSize) \<and>
   (operation = ''transform'' \<longrightarrow>
      dispatch oor order_pct order_max operation rawData batchSize = transformData oor rawData batchSize) \<and>
   (operation = ''aggregate'' \<longrightarrow>
      dispatch oor order_pct order_max operation rawData batchSize =
        Inr (aggregateData oor order_pct order_max rawData batchSize)) \<and>
   (operation \<noteq> ''analyze'' \<and> operation \<noteq> ''transform'' \<and> operation \<noteq> ''aggregate'' \<longrightarrow>
      dispatch oor order_pct order_max operation rawData batchSize = analyzeData oor rawData batchSize)"
  by (simp add: dispatch_def)

theorem dispatch_cases_witness:
  "dispatch (\<lambda>x. 0) bucket_keys bucket_keys ''analyze'' [] 10 = analyzeData (\<lambda>x. 0) [] 10 \<and>
   dispatch (\<lambda>x. 0) bucket_keys bucket_keys ''transform'' [] 10 = transformData (\<lambda>x. 0) [] 10 \<and>
   dispatch (\<lambda>x. 0) bucket_keys bucket_keys ''aggregate'' [] 10 =
     Inr (aggregateData (\<lambda>x. 0) bucket_keys bucket_keys [] 10) \<and>
   dispatch (\<lambda>x. 0) bucket_keys bucket_keys ''summarize'' [] 10 = analyzeData (\<lambda>x. 0) [] 10"
  using dispatch_cases[of "''analyze''" "\<lambda>x. 0" bucket_keys bucket_keys "[]" 10]
    dispatch_cases[of "''transform''" "\<lambda>x. 0" bucket_keys bucket_keys "[]" 10]
    dispatch_cases[of "''aggregate''" "\<lambda>x. 0" bucket_keys bucket_keys "[]" 10]
    dispatch_cases[of "''summarize''" "\<lambda>x. 0" bucket_keys bucket_keys "[]" 10]
  by simp

subsection \<open>aggregateData on the empty dataset\<close>

lemma count_ranges_Nil: "count_ranges [] = initial_ranges"
  by (simp add: count_ranges_def)

lemma initial_ranges_zero: "initial_ranges key = Some count \<Longrightarrow> count = 0"
  by (simp add: initial_ranges_def split: if_splits)

lemma largest_fold_zero:
  "fold (\<lambda>key (maxCount, maxKey).
           case initial_ranges key of
             None \<Rightarrow> (maxCount, maxKey)
           | Some count \<Rightarrow> if count > maxCount then (count, key) else (maxCount, maxKey))
        order (0, []) = (0, [])"
proof (induction order)
  case Nil
  show ?case by simp
next
  case (Cons key order)
  show ?case
  proof (cases "initial_ranges key")
    case None
    with Cons show ?thesis by simp
  next
    case (Some count)
    then have "count = 0" by (rule initial_ranges_zero)
    with Some Cons show ?thesis by simp
  qed
qed

lemma findLargestGroup_initial: "findLargestGroup order initial_ranges = []"
  by (simp add: findLargestGroup_def largest_fold_zero)

text \<open>
  Claim C10. For the empty dataset the \<^verbatim>\<open>largest_group\<close> field of \<^verbatim>\<open>aggregateData\<close> is the
  empty string, whatever the order in which the map is visited: every count is 0 and
  the comparison with \<open>maxCount = 0\<close> is strict.
\<close>

theorem aggregate_empty_largest_group:
  "aggregateData oor order_pct order_max [] batchSize ''largest_group'' = Some (VStr [])"
  by (simp add: aggregateData_def Let_def count_ranges_Nil findLargestGroup_initial)


subsection \<open>aggregateData: counting\<close>

lemma incr_apply:
  "incr ranges key k = (if k = key then Some ((case ranges key of None \<Rightarrow> 0 | Some c \<Rightarrow> c) + 1) else ranges k)"
  by (simp add: incr_def)

lemma fold_incr:
  "fold (\<lambda>value ranges. incr ranges (bucket value)) data r k =
     (if filter (\<lambda>v. bucket v = k) data = [] then r k
      else Some ((case r k of None \<Rightarrow> 0 | Some c \<Rightarrow> c) + int (length (filter (\<lambda>v. bucket v = k) data))))"
proof -
  define f where "f = (\<lambda>value ranges. incr ranges (bucket value))"
  have f: "f v r = incr r (bucket v)" for v r
    by (simp add: f_def)
  have "fold f data r k =
     (if filter (\<lambda>v. bucket v = k) data = [] then r k
      else Some ((case r k of None \<Rightarrow> 0 | Some c \<Rightarrow> c) + int (length (filter (\<lambda>v. bucket v = k) data))))"
  proof (induction data arbitrary: r)
    case Nil
    show ?case by simp
  next
    case (Cons v data)
    have "fold f (v # data) r k = fold f data (f v r) k"
      by simp
    also note Cons.IH[of "f v r"]
    also have "(if filter (\<lambda>v. bucket v = k) data = [] then f v r k
        else Some ((case f v r k of None \<Rightarrow> 0 | Some c \<Rightarrow> c) +
                   int (length (filter (\<lambda>v. bucket v = k) data)))) =
      (if filter (\<lambda>v. bucket v = k) (v # data) = [] then r k
        else Some ((case r k of None \<Rightarrow> 0 | Some c \<Rightarrow> c) +
                   int (length (filter (\<lambda>v. bucket v = k) (v # data)))))"
      by (auto simp: f incr_apply)
    finally show ?case .
  qed
  then show ?thesis by (simp only: f_def)
qed

lemma count_ranges_key:
  "k \<in> set bucket_keys \<Longrightarrow>
     count_ranges data k = Some (int (length (filter (\<lambda>v. bucket v = k) data)))"
  by (auto simp: count_ranges_def fold_incr bucket_keys_def initial_ranges_def)

lemma bucket_in_keys: "bucket v \<in> set bucket_keys"
  by (simp add: bucket_def bucket_keys_def)

lemma count_ranges_other:
  "k \<notin> set bucket_keys \<Longrightarrow> count_ranges data k = None"
proof -
  assume k: "k \<notin> set bucket_keys"
  then have "filter (\<lambda>v. bucket v = k) data = []"
    using bucket_in_keys by (auto simp: filter_empty_conv)
  with k show ?thesis
    by (simp add: count_ranges_def fold_incr initial_ranges_def bucket_keys_def)
qed

lemma dom_count_ranges: "dom (count_ranges data) = set bucket_keys"
proof (rule set_eqI)
  fix k
  show "k \<in> dom (count_ranges data) \<longleftrightarrow> k \<in> set bucket_keys"
    using count_ranges_key[of k data] count_ranges_other[of k data] by (cases "k \<in> set bucket_keys") auto
qed

lemma fle_chain:
  "fle v (Fin 25) \<Longrightarrow> fle v (Fin 50)"
  "fle v (Fin 50) \<Longrightarrow> fle v (Fin 75)"
  "fle v (Fin 75) \<Longrightarrow> fle v (Fin 100)"
  by (cases v; simp)+

lemma bucket_thresholds:
  "(bucket v = ''0-25'') = fle v (Fin 25)"
  "(bucket v = ''26-50'') = (\<not> fle v (Fin 25) \<and> fle v (Fin 50))"
  "(bucket v = ''51-75'') = (\<not> fle v (Fin 50) \<and> fle v (Fin 75))"
  "(bucket v = ''76-100'') = (\<not> fle v (Fin 75) \<and> fle v (Fin 100))"
  "(bucket v = ''100+'') = (\<not> fle v (Fin 100))"
  using fle_chain[of v] by (auto simp: bucket_def)

lemma bucket_counts_sum:
  "(\<Sum>k\<leftarrow>bucket_keys. int (length (filter (\<lambda>v. bucket v = k) data))) = len data"
  by (induction data) (auto simp: bucket_keys_def len_def bucket_def)

lemma count_ranges_sum:
  "(\<Sum>k\<leftarrow>bucket_keys. the (count_ranges data k)) = len data"
proof -
  have "map (\<lambda>k. the (count_ranges data k)) bucket_keys =
        map (\<lambda>k. int (length (filter (\<lambda>v. bucket v = k) data))) bucket_keys"
    by (rule map_cong) (simp_all add: count_ranges_key)
  then show ?thesis by (simp only: bucket_counts_sum)
qed

text \<open>
  Claim C6. \<^verbatim>\<open>aggregateData\<close> counts every value in exactly one of the five buckets:
  \<^verbatim>\<open>0-25\<close> for \<open>value \<le> 25\<close>, \<^verbatim>\<open>26-50\<close> for the values not there with \<open>value \<le> 50\<close>,
  then \<^verbatim>\<open>51-75\<close> and \<^verbatim>\<open>76-100\<close> likewise, and \<^verbatim>\<open>100+\<close> for the rest (which takes NaN
  too); the five counts add up to the length of the dataset, which is \<^verbatim>\<open>total_count\<close>.
\<close>

theorem aggregate_ranges:
  "\<exists>ranges.
     aggregateData oor order_pct order_max data batchSize ''ranges'' = Some (VCounts ranges) \<and>
     aggregateData oor order_pct order_max data batchSize ''total_count'' = Some (VInt (len data)) \<and>
     dom ranges = set bucket_keys \<and>
     ranges ''0-25'' = Some (int (length (filter (\<lambda>v. fle v (Fin 25)) data))) \<and>
     ranges ''26-50'' = Some (int (length (filter (\<lambda>v. \<not> fle v (Fin 25) \<and> fle v (Fin 50)) data))) \<and>
     ranges ''51-75'' = Some (int (length (filter (\<lambda>v. \<not> fle v (Fin 50) \<and> fle v (Fin 75)) data))) \<and>
     ranges ''76-100'' = Some (int (length (filter (\<lambda>v. \<not> fle v (Fin 75) \<and> fle v (Fin 100)) data))) \<and>
     ranges ''100+'' = Some (int (length (filter (\<lambda>v. \<not> fle v (Fin 100)) data))) \<and>
     (\<Sum>k\<leftarrow>bucket_keys. the (ranges k)) = len data"
proof -
  have k: "count_ranges data ''0-25'' = Some (int (length (filter (\<lambda>v. fle v (Fin 25)) data)))"
    "count_ranges data ''26-50'' = Some (int (length (filter (\<lambda>v. \<not> fle v (Fin 25) \<and> fle v (Fin 50)) data)))"
    "count_ranges data ''51-75'' = Some (int (length (filter (\<lambda>v. \<not> fle v (Fin 50) \<and> fle v (Fin 75)) data)))"
    "count_ranges data ''76-100'' = Some (int (length (filter (\<lambda>v. \<not> fle v (Fin 75) \<and> fle v (Fin 100)) data)))"
    "count_ranges data ''100+'' = Some (int (length (filter (\<lambda>v. \<not> fle v (Fin 100)) data)))"
    by (simp_all add: count_ranges_key bucket_keys_def bucket_thresholds)
  show ?thesis
    by (rule exI[of _ "count_ranges data"])
       (simp add: aggregateData_def Let_def dom_count_ranges k count_ranges_sum)
qed

theorem aggregate_ranges_witness:
  "\<exists>ranges.
     aggregateData (\<lambda>x. 0) bucket_keys bucket_keys [Fin 5, Fin 30, Fin 60, Fin 90, Fin 150] 10 ''ranges'' =
       Some (VCounts ranges) \<and>
     ranges ''0-25'' = Some 1 \<and> ranges ''26-50'' = Some 1 \<and> ranges ''51-75'' = Some 1 \<and>
     ranges ''76-100'' = Some 1 \<and> ranges ''100+'' = Some 1"
  using aggregate_ranges[of "\<lambda>x. 0" bucket_keys bucket_keys "[Fin 5, Fin 30, Fin 60, Fin 90, Fin 150]" 10]
  by auto

subsection \<open>aggregateData: percentages of the empty dataset\<close>

lemma percentages_fold:
  "fold (\<lambda>key percentages.
           case ranges key of
             None \<Rightarrow> percentages
           | Some count \<Rightarrow> percentages(key \<mapsto> percentage oor count total_n))
        order m k =
     (if k \<in> set order \<and> ranges k \<noteq> None then Some (percentage oor (the (ranges k)) total_n)
      else m k)"
proof (induction order arbitrary: m)
  case Nil
  show ?case by simp
next
  case (Cons key order)
  show ?case by (cases "ranges key") (auto simp: Cons.IH)
qed

lemma percentages_loop_order:
  assumes "iteration_order ranges order"
  shows "percentages_loop oor order ranges total_n =
           (\<lambda>k. map_option (\<lambda>count. percentage oor count total_n) (ranges k))"
proof (rule ext)
  fix k
  from assms have "set order = dom ranges" by (simp add: iteration_order_def)
  then show "percentages_loop oor order ranges total_n k =
         map_option (\<lambda>count. percentage oor count total_n) (ranges k)"
    by (cases "ranges k") (auto simp: percentages_loop_def percentages_fold)
qed

lemma float64_of_int_0: "float64_of_int 0 = Fin 0"
  by (simp add: float64_of_int_def round64_def round_fin_def)

text \<open>
  Claim C7. For the empty dataset \<^verbatim>\<open>total\<close> is 0 and the percentage loop divides by it
  without a guard: for each of the five buckets it computes \<open>0 / 0\<close>, which in binary64
  is NaN and not a panic, and stores \<^verbatim>\<open>roundToTwo\<close> of \<open>NaN * 100\<close>.
\<close>

theorem aggregate_empty_division:
  assumes "iteration_order (count_ranges []) order_pct"
  shows "\<exists>percentages.
     aggregateData oor order_pct order_max [] batchSize ''total_count'' = Some (VInt 0) \<and>
     aggregateData oor order_pct order_max [] batchSize ''percentages'' = Some (VPercents percentages) \<and>
     dom percentages = set bucket_keys \<and>
     percentages ''0-25'' = Some (roundToTwo oor (fmul (fdiv (float64_of_int 0) (float64_of_int 0)) (Fin 100))) \<and>
     percentages ''26-50'' = Some (roundToTwo oor (fmul (fdiv (float64_of_int 0) (float64_of_int 0)) (Fin 100))) \<and>
     percentages ''51-75'' = Some (roundToTwo oor (fmul (fdiv (float64_of_int 0) (float64_of_int 0)) (Fin 100))) \<and>
     percentages ''76-100'' = Some (roundToTwo oor (fmul (fdiv (float64_of_int 0) (float64_of_int 0)) (Fin 100))) \<and>
     percentages ''100+'' = Some (roundToTwo oor (fmul (fdiv (float64_of_int 0) (float64_of_int 0)) (Fin 100))) \<and>
     float64_of_int (len ([] :: float64 list)) = Fin 0 \<and>
     fdiv (float64_of_int 0) (float64_of_int (len ([] :: float64 list))) = NaN"
proof -
  have p: "percentages_loop oor order_pct initial_ranges 0 =
           (\<lambda>k. map_option (\<lambda>count. percentage oor count 0) (initial_ranges k))"
    using assms by (simp add: percentages_loop_order count_ranges_Nil)
  have i: "initial_ranges ''0-25'' = Some 0" "initial_ranges ''26-50'' = Some 0"
    "initial_ranges ''51-75'' = Some 0" "initial_ranges ''76-100'' = Some 0"
    "initial_ranges ''100+'' = Some 0"
    by (simp_all add: initial_ranges_def)
  have d: "dom (\<lambda>k. map_option g (initial_ranges k)) = set bucket_keys" for g :: "int \<Rightarrow> float64"
    using dom_count_ranges[of "[]"] by (auto simp: count_ranges_Nil dom_def)
  show ?thesis
    by (rule exI[of _ "percentages_loop oor order_pct initial_ranges 0"])
       (simp add: aggregateData_def Let_def count_ranges_Nil len_def p d float64_of_int_0
          i percentage_def)
qed

theorem aggregate_empty_division_witness:
  "iteration_order (count_ranges []) bucket_keys \<and>
   (\<exists>percentages.
     aggregateData (\<lambda>x. 0) bucket_keys bucket_keys [] 10 ''percentages'' = Some (VPercents percentages) \<and>
     percentages ''0-25'' = Some (roundToTwo (\<lambda>x. 0) (fmul NaN (Fin 100))))"
proof -
  have h: "iteration_order (count_ranges []) bucket_keys"
    by (simp add: iteration_order_def dom_count_ranges) (simp add: bucket_keys_def)
  show ?thesis
    using h aggregate_empty_division[OF h, of "\<lambda>x. 0" bucket_keys 10]
    by (auto simp: float64_of_int_0)
qed


subsection \<open>transformData: the batches\<close>

declare transform_loop.simps [simp del] batch_slices.simps [simp del]

lemma normalize_batch_eq: "normalize_batch oor batch transformed = transformed @ map (normalize oor) batch"
  unfolding normalize_batch_def by (induction batch arbitrary: transformed) simp_all

lemma loop_slice:
  assumes "0 \<le> i" and "i < len data" and "0 < batchSize"
  shows "slice data i (if i + batchSize > len data then len data else i + batchSize) =
           Inr (take (nat batchSize) (drop (nat i) data))"
  using assms by (auto simp: slice_def len_def min_def)

lemma batch_slices_step:
  "0 \<le> i \<Longrightarrow> i < len data \<Longrightarrow> 0 < batchSize \<Longrightarrow>
     batch_slices data batchSize i =
       take (nat batchSize) (drop (nat i) data) # batch_slices data batchSize (i + batchSize)"
  by (subst batch_slices.simps) simp

lemma batch_slices_done:
  "\<not> (0 \<le> i \<and> i < len data \<and> 0 < batchSize) \<Longrightarrow> batch_slices data batchSize i = []"
  by (subst batch_slices.simps) simp

lemma sdiv_step:
  assumes "0 \<le> i" and "0 < (b::int)"
  shows "(i + b) sdiv b = i sdiv b + 1" and "0 \<le> i sdiv b"
  using assms by (simp_all add: signed_divide_int_def sgn_if pos_imp_zdiv_nonneg_iff)

lemma transform_loop_eq:
  assumes "0 < batchSize" and "0 \<le> i"
  shows "transform_loop oor data batchSize i acc =
     Inr (fst acc @ map (normalize oor) (drop (nat i) data),
          snd acc @ map (\<lambda>(k, batch). processBatch oor batch (int k))
                 (enumerate (nat (i sdiv batchSize + 1)) (batch_slices data batchSize i)))"
  using assms
proof (induction oor data batchSize i acc rule: transform_loop.induct)
  case (1 oor data batchSize i acc)
  show ?case
  proof (cases "i < len data")
    case False
    then have "drop (nat i) data = []" using 1(3) by (simp add: len_def)
    with False show ?thesis
      by (subst transform_loop.simps) (simp add: batch_slices_done)
  next
    case True
    let ?batch = "take (nat batchSize) (drop (nat i) data)"
    let ?acc = "(normalize_batch oor ?batch (fst acc),
                 snd acc @ [processBatch oor ?batch (i sdiv batchSize + 1)])"
    have s: "slice data i (if i + batchSize > len data then len data else i + batchSize) = Inr ?batch"
      using 1(3) True 1(2) by (rule loop_slice)
    have n: "batchSize \<noteq> 0" using 1(2) by simp
    have IH: "transform_loop oor data batchSize (i + batchSize) ?acc =
      Inr (fst ?acc @ map (normalize oor) (drop (nat (i + batchSize)) data),
           snd ?acc @
           map (\<lambda>(k, batch). processBatch oor batch (int k))
             (enumerate (nat ((i + batchSize) sdiv batchSize + 1))
               (batch_slices data batchSize (i + batchSize))))"
      using 1(1)[OF True refl s n] 1(2,3) by simp
    have d: "?batch @ drop (nat (i + batchSize)) data = drop (nat i) data"
      using 1(2,3) by (simp add: nat_add_distrib add.commute[of "nat i"] flip: drop_drop)
    have dm: "map (normalize oor) ?batch @ map (normalize oor) (drop (nat (i + batchSize)) data) =
        map (normalize oor) (drop (nat i) data)"
      by (simp only: d flip: map_append)
    have e: "nat ((i + batchSize) sdiv batchSize + 1) = Suc (nat (i sdiv batchSize + 1))"
      using sdiv_step[OF 1(3) 1(2)] by simp
    have k: "int (nat (i sdiv batchSize + 1)) = i sdiv batchSize + 1"
      using sdiv_step[OF 1(3) 1(2)] by simp
    have "transform_loop oor data batchSize i acc =
          transform_loop oor data batchSize (i + batchSize) ?acc"
      using True n by (subst transform_loop.simps) (simp add: s)
    also note IH
    finally show ?thesis
      using dm sdiv_step(2)[OF 1(3) 1(2)]
      by (simp add: normalize_batch_eq batch_slices_step[OF 1(3) True 1(2)] e k)
  qed
qed


lemma concat_batch_slices:
  "0 < batchSize \<Longrightarrow> 0 \<le> i \<Longrightarrow> concat (batch_slices data batchSize i) = drop (nat i) data"
proof (induction data batchSize i rule: batch_slices.induct)
  case (1 data batchSize i)
  show ?case
  proof (cases "i < len data")
    case False
    then show ?thesis using 1(3) by (simp add: batch_slices_done len_def)
  next
    case True
    have "take (nat batchSize) (drop (nat i) data) @ drop (nat (i + batchSize)) data = drop (nat i) data"
      using 1(2,3) by (simp add: nat_add_distrib add.commute[of "nat i"] flip: drop_drop)
    then show ?thesis
      using 1 True by (simp add: batch_slices_step)
  qed
qed

lemma length_batch_slices:
  "0 < batchSize \<Longrightarrow> 0 \<le> i \<Longrightarrow>
     len (batch_slices data batchSize i) = max 0 ((len data - i + batchSize - 1) div batchSize)"
proof (induction data batchSize i rule: batch_slices.induct)
  case (1 data batchSize i)
  show ?case
  proof (cases "i < len data")
    case False
    then have "len data - i + batchSize - 1 < batchSize" by simp
    then have "(len data - i + batchSize - 1) div batchSize \<le> (batchSize - 1) div batchSize"
      using 1(2) by (intro zdiv_mono1) simp_all
    also have "(batchSize - 1) div batchSize = 0"
      using 1(2) by (simp add: div_pos_pos_trivial)
    finally have "(len data - i + batchSize - 1) div batchSize \<le> 0" .
    with False show ?thesis by (simp add: batch_slices_done len_def)
  next
    case True
    have "len data - i + batchSize - 1 = (len data - (i + batchSize) + batchSize - 1) + 1 * batchSize"
      by simp
    then have "(len data - i + batchSize - 1) div batchSize =
               (len data - (i + batchSize) + batchSize - 1) div batchSize + 1"
      using 1(2) by (simp only: div_mult_self1)
    moreover have "0 \<le> (len data - (i + batchSize) + batchSize - 1) div batchSize"
      using True 1(2) by (simp add: pos_imp_zdiv_nonneg_iff)
    ultimately show ?thesis
      using 1 True by (simp add: batch_slices_step len_def)
  qed
qed

lemma nth_batch_slices:
  "0 < batchSize \<Longrightarrow> 0 \<le> i \<Longrightarrow> k < length (batch_slices data batchSize i) \<Longrightarrow>
     batch_slices data batchSize i ! k = take (nat batchSize) (drop (nat i + k * nat batchSize) data) \<and>
     nat i + k * nat batchSize < length data"
proof (induction data batchSize i arbitrary: k rule: batch_slices.induct)
  case (1 data batchSize i)
  show ?case
  proof (cases "i < len data")
    case False
    then show ?thesis using 1(4) by (simp add: batch_slices_done)
  next
    case True
    note st = batch_slices_step[OF 1(3) True 1(2)]
    show ?thesis
    proof (cases k)
      case 0
      then show ?thesis using True 1(3) by (simp add: st len_def)
    next
      case (Suc j)
      then have "j < length (batch_slices data batchSize (i + batchSize))"
        using 1(4) by (simp add: st)
      from 1(1)[OF _ 1(2) _ this] True 1(2,3)
      show ?thesis by (simp add: st Suc nat_add_distrib algebra_simps)
    qed
  qed
qed


lemma ceiling_div:
  assumes "0 < (b::int)"
  shows "\<lceil>(of_int n :: rat) / of_int b\<rceil> = (n + b - 1) div b"
proof -
  define c where "c = (n + b - 1) div b"
  define r where "r = (n + b - 1) mod b"
  have m: "n + b - 1 = c * b + r" by (simp add: c_def r_def)
  have r: "0 \<le> r" "r < b" using assms by (simp_all add: r_def)
  have bp: "0 < (of_int b :: rat)" using assms by simp
  have "n \<le> c * b" using m r by linarith
  then have "(of_int n :: rat) \<le> of_int (c * b)" by (simp only: of_int_le_iff)
  then have hi: "(of_int n :: rat) / of_int b \<le> of_int c"
    using bp by (simp add: pos_divide_le_eq)
  have "(c - 1) * b < n" using m r by (simp add: algebra_simps)
  then have "(of_int ((c - 1) * b) :: rat) < of_int n" by (simp only: of_int_less_iff)
  then have lo: "of_int c - 1 < (of_int n :: rat) / of_int b"
    using bp by (simp add: pos_less_divide_eq)
  show ?thesis unfolding c_def[symmetric] using lo hi by (rule ceiling_unique)
qed

lemma processBatch_fields:
  "processBatch oor batch batchNum ''batch_number'' = Some (VInt batchNum)"
  "processBatch oor batch batchNum ''size'' = Some (VInt (len batch))"
  "processBatch oor batch batchNum ''sum'' = Some (VFloat (roundToTwo oor (sum_loop batch)))"
  "processBatch oor batch batchNum ''average'' =
     Some (VFloat (roundToTwo oor (fdiv (sum_loop batch) (float64_of_int (len batch)))))"
  by (simp_all add: processBatch_def Let_def)

lemma batch_results_nth:
  assumes "k < length slices"
  shows "map (\<lambda>(k, batch). processBatch oor batch (int k)) (enumerate 1 slices) ! k =
           processBatch oor (slices ! k) (int k + 1)"
  using assms by (simp add: nth_enumerate_eq add.commute)

text \<open>
  Claim C5. For a batch size of at least 1, \<^verbatim>\<open>transformData\<close> returns normally, and
  \<^verbatim>\<open>batch_results\<close> holds one result of \<^verbatim>\<open>processBatch\<close> per slice, in order: the result
  at position \<open>k\<close> (from 0) has \<^verbatim>\<open>batch_number\<close> \<open>k + 1\<close>, so the batches are numbered
  1, 2, ..., and its \<^verbatim>\<open>size\<close> is the length of slice \<open>k\<close>, its \<^verbatim>\<open>sum\<close> and \<^verbatim>\<open>average\<close>
  those of slice \<open>k\<close>, rounded by \<^verbatim>\<open>roundToTwo\<close>. Slice \<open>k\<close> is
  \<^verbatim>\<open>data[k*batchSize : (k+1)*batchSize]\<close> cut at the end of the data, so the slices are
  contiguous and do not overlap, their concatenation is the dataset, there are
  \<open>\<lceil>n / batchSize\<rceil>\<close> of them (which is \<^verbatim>\<open>batches_processed\<close>), none is empty, and all but
  the last have length \<open>batchSize\<close>.
\<close>

theorem transform_batches:
  assumes "1 \<le> batchSize"
  shows "\<exists>r results.
     transformData oor data batchSize = Inr r \<and>
     r ''batch_results'' = Some (VObjs results) \<and>
     results = map (\<lambda>(k, batch). processBatch oor batch (int k))
                 (enumerate 1 (batch_slices data batchSize 0)) \<and>
     length results = length (batch_slices data batchSize 0) \<and>
     r ''batches_processed'' = Some (VInt (len (batch_slices data batchSize 0))) \<and>
     concat (batch_slices data batchSize 0) = data \<and>
     len (batch_slices data batchSize 0) = \<lceil>(of_int (len data) :: rat) / of_int batchSize\<rceil> \<and>
     (\<forall>k < length (batch_slices data batchSize 0).
        (results ! k) ''batch_number'' = Some (VInt (int k + 1)) \<and>
        (results ! k) ''size'' = Some (VInt (len (batch_slices data batchSize 0 ! k))) \<and>
        (results ! k) ''sum'' =
          Some (VFloat (roundToTwo oor (sum_loop (batch_slices data batchSize 0 ! k)))) \<and>
        (results ! k) ''average'' =
          Some (VFloat (roundToTwo oor
            (fdiv (sum_loop (batch_slices data batchSize 0 ! k))
                  (float64_of_int (len (batch_slices data batchSize 0 ! k)))))) \<and>
        batch_slices data batchSize 0 ! k = take (nat batchSize) (drop (k * nat batchSize) data) \<and>
        1 \<le> len (batch_slices data batchSize 0 ! k) \<and>
        len (batch_slices data batchSize 0 ! k) \<le> batchSize \<and>
        (Suc k < length (batch_slices data batchSize 0) \<longrightarrow>
           len (batch_slices data batchSize 0 ! k) = batchSize))"
proof -
  let ?S = "batch_slices data batchSize 0"
  have b: "0 < batchSize" using assms by simp
  have loop: "transform_loop oor data batchSize 0 ([], []) =
      Inr (map (normalize oor) data,
           map (\<lambda>(k, batch). processBatch oor batch (int k)) (enumerate 1 ?S))"
    using transform_loop_eq[OF b, of 0 oor data "([], [])"] by simp
  have n: "len ?S = \<lceil>(of_int (len data) :: rat) / of_int batchSize\<rceil>"
  proof -
    have "0 \<le> (len data + batchSize - 1) div batchSize"
      using b by (simp add: pos_imp_zdiv_nonneg_iff len_def)
    then show ?thesis
      using length_batch_slices[OF b, of 0 data] by (simp add: ceiling_div[OF b])
  qed
  let ?B = "map (\<lambda>(k, batch). processBatch oor batch (int k)) (enumerate 1 ?S)"
  have k: "(?B ! k) ''batch_number'' = Some (VInt (int k + 1)) \<and>
        (?B ! k) ''size'' = Some (VInt (len (?S ! k))) \<and>
        (?B ! k) ''sum'' = Some (VFloat (roundToTwo oor (sum_loop (?S ! k)))) \<and>
        (?B ! k) ''average'' =
          Some (VFloat (roundToTwo oor (fdiv (sum_loop (?S ! k)) (float64_of_int (len (?S ! k)))))) \<and>
        ?S ! k = take (nat batchSize) (drop (k * nat batchSize) data) \<and>
        1 \<le> len (?S ! k) \<and> len (?S ! k) \<le> batchSize \<and>
        (Suc k < length ?S \<longrightarrow> len (?S ! k) = batchSize)" if "k < length ?S" for k
  proof -
    from nth_batch_slices[OF b _ that] have
      e: "?S ! k = take (nat batchSize) (drop (k * nat batchSize) data)"
      and l: "k * nat batchSize < length data" by simp_all
    have full: "len (?S ! k) = batchSize" if "Suc k < length ?S"
    proof -
      from nth_batch_slices[OF b _ that] have "Suc k * nat batchSize < length data" by simp
      then show ?thesis using b by (simp add: e len_def)
    qed
    have "1 \<le> len (?S ! k)" "len (?S ! k) \<le> batchSize"
      using l b by (auto simp: e len_def)
    moreover note batch_results_nth[OF that, of oor]
    ultimately show ?thesis using e full by (simp only: processBatch_fields) simp
  qed
  have K: "\<forall>k < length ?S.
        (?B ! k) ''batch_number'' = Some (VInt (int k + 1)) \<and>
        (?B ! k) ''size'' = Some (VInt (len (?S ! k))) \<and>
        (?B ! k) ''sum'' = Some (VFloat (roundToTwo oor (sum_loop (?S ! k)))) \<and>
        (?B ! k) ''average'' =
          Some (VFloat (roundToTwo oor (fdiv (sum_loop (?S ! k)) (float64_of_int (len (?S ! k)))))) \<and>
        ?S ! k = take (nat batchSize) (drop (k * nat batchSize) data) \<and>
        1 \<le> len (?S ! k) \<and> len (?S ! k) \<le> batchSize \<and>
        (Suc k < length ?S \<longrightarrow> len (?S ! k) = batchSize)"
    using k by blast
  let ?r = "[''type'' \<mapsto> VStr ''transformation'',
          ''original_count'' \<mapsto> VInt (len data),
          ''transformed'' \<mapsto> VFloats (map (normalize oor) data),
          ''batch_results'' \<mapsto> VObjs ?B,
          ''batches_processed'' \<mapsto> VInt (len ?B)]"
  have r1: "transformData oor data batchSize = Inr ?r"
    by (simp add: transformData_def then_do_def loop)
  have r2: "?r ''batch_results'' = Some (VObjs ?B)" by simp
  have r3: "?r ''batches_processed'' = Some (VInt (len ?S))" by (simp add: len_def)
  have r4: "length ?B = length ?S" by simp
  have c: "concat ?S = data" using concat_batch_slices[OF b, of 0 data] by simp
  from r1 r2 r3 r4 c n K show ?thesis by blast
qed

theorem transform_batches_witness:
  "(1::int) \<le> 2 \<and>
   batch_slices [Fin 10, Fin 20, Fin 30, Fin 40, Fin 50] 2 0 =
     [[Fin 10, Fin 20], [Fin 30, Fin 40], [Fin 50]] \<and>
   (\<exists>r results. transformData (\<lambda>x. 0) [Fin 10, Fin 20, Fin 30, Fin 40, Fin 50] 2 = Inr r \<and>
        r ''batch_results'' = Some (VObjs results) \<and>
        length results = 3 \<and>
        (results ! 0) ''batch_number'' = Some (VInt 1) \<and> (results ! 0) ''size'' = Some (VInt 2) \<and>
        (results ! 1) ''batch_number'' = Some (VInt 2) \<and> (results ! 1) ''size'' = Some (VInt 2) \<and>
        (results ! 2) ''batch_number'' = Some (VInt 3) \<and> (results ! 2) ''size'' = Some (VInt 1) \<and>
        r ''batches_processed'' = Some (VInt 3) \<and>
        concat (batch_slices [Fin 10, Fin 20, Fin 30, Fin 40, Fin 50] 2 0) =
          [Fin 10, Fin 20, Fin 30, Fin 40, Fin 50])"
proof -
  let ?d = "[Fin 10, Fin 20, Fin 30, Fin 40, Fin 50]"
  have h: "(1::int) \<le> 2" by simp
  have s: "batch_slices ?d 2 0 = [[Fin 10, Fin 20], [Fin 30, Fin 40], [Fin 50]]"
    by (simp add: batch_slices.simps len_def)
  from transform_batches[OF h, of "\<lambda>x. 0" ?d]
  obtain r results where
    r: "transformData (\<lambda>x. 0) ?d 2 = Inr r" "r ''batch_results'' = Some (VObjs results)"
      "length results = length (batch_slices ?d 2 0)"
      "r ''batches_processed'' = Some (VInt (len (batch_slices ?d 2 0)))"
      "concat (batch_slices ?d 2 0) = ?d"
    and K: "\<forall>k < length (batch_slices ?d 2 0).
        (results ! k) ''batch_number'' = Some (VInt (int k + 1)) \<and>
        (results ! k) ''size'' = Some (VInt (len (batch_slices ?d 2 0 ! k)))"
    by blast
  have "(0::nat) < length (batch_slices ?d 2 0)" "(1::nat) < length (batch_slices ?d 2 0)"
    "(2::nat) < length (batch_slices ?d 2 0)" by (simp_all add: s)
  with K have
    "(results ! 0) ''batch_number'' = Some (VInt (int 0 + 1)) \<and>
     (results ! 0) ''size'' = Some (VInt (len (batch_slices ?d 2 0 ! 0)))"
    "(results ! 1) ''batch_number'' = Some (VInt (int 1 + 1)) \<and>
     (results ! 1) ''size'' = Some (VInt (len (batch_slices ?d 2 0 ! 1)))"
    "(results ! 2) ''batch_number'' = Some (VInt (int 2 + 1)) \<and>
     (results ! 2) ''size'' = Some (VInt (len (batch_slices ?d 2 0 ! 2)))"
    by blast+
  then have f:
    "(results ! 0) ''batch_number'' = Some (VInt 1) \<and> (results ! 0) ''size'' = Some (VInt 2)"
    "(results ! 1) ''batch_number'' = Some (VInt 2) \<and> (results ! 1) ''size'' = Some (VInt 2)"
    "(results ! 2) ''batch_number'' = Some (VInt 3) \<and> (results ! 2) ''size'' = Some (VInt 1)"
    by (simp_all add: s len_def)
  from r(3,4) have "length results = 3" "r ''batches_processed'' = Some (VInt 3)"
    by (simp_all add: s len_def)
  with h s r(1,2,5) f show ?thesis by blast
qed

subsection \<open>Rounding is monotone\<close>

lemma pow2_split: "(2::rat) powi (a + b) = 2 powi a * 2 powi b"
  by (simp add: power_int_add)

lemma pow2_53: "(2::rat) powi (E + 1) = of_int (2 ^ 53) * 2 powi (E - 52)"
proof -
  have "(2::rat) powi (E + 1) = 2 powi (53 + (E - 52))"
    by (rule arg_cong[where f = "power_int 2"]) simp
  also have "\<dots> = 2 powi 53 * 2 powi (E - 52)" by (rule pow2_split)
  finally show ?thesis by simp
qed

lemma pow2_52: "(2::rat) powi E = of_int (2 ^ 52) * 2 powi (E - 52)"
proof -
  have "(2::rat) powi E = 2 powi (52 + (E - 52))"
    by (rule arg_cong[where f = "power_int 2"]) simp
  also have "\<dots> = 2 powi 52 * 2 powi (E - 52)" by (rule pow2_split)
  finally show ?thesis by simp
qed

lemma round_fin_upper:
  assumes "0 < q"
  shows "round_fin q \<le> 2 powi (max (expo q) (- 1022) + 1)"
proof -
  define E where "E = max (expo q) (- 1022)"
  have u: "quantum q = 2 powi (E - 52)" by (simp add: quantum_def E_def)
  have q: "q \<noteq> 0" using assms by simp
  have "q < 2 powi (expo q + 1)" using expo_bounds(2)[OF q] assms by simp
  also have "\<dots> \<le> 2 powi (E + 1)" by (intro power_int_increasing) (simp_all add: E_def)
  also have "\<dots> = of_int (2 ^ 53) * 2 powi (E - 52)"
    by (rule pow2_53)
  finally have "q / quantum q \<le> of_int (2 ^ 53)"
    using pow2_pos[of "E - 52"] by (simp add: u pos_divide_le_eq less_imp_le)
  then have "rne (q / quantum q) \<le> 2 ^ 53" by (rule rne_le)
  then have "(of_int (rne (q / quantum q)) :: rat) \<le> of_int (2 ^ 53)" by (simp only: of_int_le_iff)
  then have "round_fin q \<le> of_int (2 ^ 53) * 2 powi (E - 52)"
    using pow2_pos[of "E - 52"] by (simp add: round_fin_pos[OF assms] u mult_right_mono less_imp_le)
  also have "\<dots> = 2 powi (E + 1)"
    by (rule pow2_53[symmetric])
  finally show ?thesis by (simp add: E_def)
qed

lemma round_fin_lower:
  assumes "0 < q" and "- 1022 \<le> expo q"
  shows "2 powi expo q \<le> round_fin q"
proof -
  define E where "E = expo q"
  have u: "quantum q = 2 powi (E - 52)" using assms(2) by (simp add: quantum_def E_def max_def)
  have q: "q \<noteq> 0" using assms by simp
  have e: "(2::rat) powi E = of_int (2 ^ 52) * 2 powi (E - 52)"
    by (rule pow2_52)
  have "(2::rat) powi E \<le> q" using expo_bounds(1)[OF q] assms by (simp add: E_def)
  then have "of_int (2 ^ 52) \<le> q / quantum q"
    using pow2_pos[of "E - 52"] by (simp add: u e pos_le_divide_eq)
  then have "2 ^ 52 \<le> rne (q / quantum q)" by (rule rne_ge)
  then have "(of_int (2 ^ 52) :: rat) \<le> of_int (rne (q / quantum q))" by (simp only: of_int_le_iff)
  then have "of_int (2 ^ 52) * 2 powi (E - 52) \<le> round_fin q"
    using pow2_pos[of "E - 52"] by (simp add: round_fin_pos[OF assms(1)] u mult_right_mono less_imp_le)
  then have "2 powi E \<le> round_fin q" by (simp only: e)
  then show ?thesis by (simp only: E_def)
qed

lemma round_fin_mono_pos:
  assumes "0 < x" and "x \<le> y"
  shows "round_fin x \<le> round_fin y"
proof -
  have y: "0 < y" using assms by simp
  define Ex where "Ex = max (expo x) (- 1022)"
  define Ey where "Ey = max (expo y) (- 1022)"
  have le: "Ex \<le> Ey" using expo_mono[OF assms] by (simp add: Ex_def Ey_def)
  show ?thesis
  proof (cases "Ex = Ey")
    case True
    then have u: "quantum y = quantum x" by (simp add: quantum_def Ex_def Ey_def)
    have "x / quantum x \<le> y / quantum x"
      using assms(2) quantum_pos[of x] by (simp add: divide_right_mono less_imp_le)
    then have "rne (x / quantum x) \<le> rne (y / quantum x)" by (rule rne_mono)
    then have "(of_int (rne (x / quantum x)) :: rat) \<le> of_int (rne (y / quantum x))"
      by (simp only: of_int_le_iff)
    then show ?thesis
      using quantum_pos[of x]
      by (simp add: round_fin_pos[OF assms(1)] round_fin_pos[OF y] u mult_right_mono less_imp_le)
  next
    case False
    with le have lt: "Ex < Ey" by simp
    then have ey: "expo y = Ey" "- 1022 \<le> expo y" by (auto simp: Ex_def Ey_def max_def split: if_splits)
    have "round_fin x \<le> 2 powi (Ex + 1)"
      using round_fin_upper[OF assms(1)] by (simp add: Ex_def)
    also have "\<dots> \<le> 2 powi Ey" using lt by (intro power_int_increasing) simp_all
    also have "\<dots> \<le> round_fin y" using round_fin_lower[OF y ey(2)] by (simp add: ey(1))
    finally show ?thesis .
  qed
qed

lemma round_fin_nonpos: "q \<le> 0 \<Longrightarrow> round_fin q \<le> 0"
  using round_fin_nonneg[of "- q"] by (simp add: round_fin_minus)

lemma round_fin_mono:
  assumes "x \<le> y"
  shows "round_fin x \<le> round_fin y"
proof (cases "0 < x")
  case True
  then show ?thesis using assms by (rule round_fin_mono_pos)
next
  case False
  then have x: "x \<le> 0" by simp
  show ?thesis
  proof (cases "y < 0")
    case True
    then have "0 < - y" "- y \<le> - x" using assms by simp_all
    then have "round_fin (- y) \<le> round_fin (- x)" by (rule round_fin_mono_pos)
    then show ?thesis by (simp add: round_fin_minus)
  next
    case False
    then have "0 \<le> round_fin y" by (simp add: round_fin_nonneg)
    with round_fin_nonpos[OF x] show ?thesis by simp
  qed
qed

lemma round64_alt:
  "round64 q =
     (if 2 ^ 1024 \<le> round_fin q then PInf
      else if round_fin q \<le> - (2 ^ 1024) then NInf
      else Fin (round_fin q))"
proof (cases "round_fin q = 0")
  case True
  then show ?thesis by (simp add: round64_def)
next
  case False
  then show ?thesis
    using overflow_iff[OF False] by (auto simp: round64_def Let_def signed_inf_def abs_if)
qed

lemma round64_mono: "x \<le> y \<Longrightarrow> fle (round64 x) (round64 y)"
  using round_fin_mono[of x y] by (auto simp: round64_alt)

lemma round64_between:
  assumes "a \<le> q" and "q \<le> b" and "round64 a = Fin a'" and "round64 b = Fin b'"
  shows "\<exists>r. round64 q = Fin r \<and> a' \<le> r \<and> r \<le> b'"
  using round64_mono[OF assms(1)] round64_mono[OF assms(2)] assms(3,4)
  by (cases "round64 q") simp_all

lemma round64_Fin_D: "round64 q = Fin r \<Longrightarrow> round_fin q = r \<and> \<bar>r\<bar> < 2 ^ 1024"
  by (auto simp: round64_alt split: if_splits)

subsection \<open>Doubling a binary64 value\<close>

lemma expo_double:
  assumes "q \<noteq> 0"
  shows "expo (2 * q) = expo q + 1"
proof (rule expo_unique)
  have "(2::rat) powi (expo q + 1) = 2 * 2 powi expo q"
    using pow2_split[of 1 "expo q"] by (simp add: add.commute)
  also have "\<dots> \<le> 2 * \<bar>q\<bar>" using expo_bounds(1)[OF assms] by simp
  finally show "(2::rat) powi (expo q + 1) \<le> \<bar>2 * q\<bar>" by (simp add: abs_mult)
  have "\<bar>2 * q\<bar> = 2 * \<bar>q\<bar>" by (simp add: abs_mult)
  also have "\<dots> < 2 * 2 powi (expo q + 1)" using expo_bounds(2)[OF assms] by simp
  also have "\<dots> = 2 powi (expo q + 1 + 1)"
    using pow2_split[of 1 "expo q + 1"] by (simp add: add.commute)
  finally show "\<bar>2 * q\<bar> < 2 powi (expo q + 1 + 1)" .
qed

lemma round_fin_double:
  assumes "round_fin a = a"
  shows "round_fin (2 * a) = 2 * a"
proof (cases "a = 0")
  case True
  then show ?thesis by (simp add: round_fin_def)
next
  case False
  define m where "m = rne (\<bar>a\<bar> / quantum a)"
  have a: "a = sgn a * of_int m * quantum a"
    using assms False by (simp add: round_fin_def m_def)
  have "\<bar>a\<bar> = \<bar>of_int m\<bar> * quantum a"
    using quantum_pos[of a] False by (subst a) (simp add: abs_mult abs_sgn_eq)
  moreover have "0 \<le> m"
    unfolding m_def using quantum_pos[of a] by (intro rne_ge) simp
  ultimately have am: "\<bar>a\<bar> = of_int m * quantum a" by simp
  have s: "sgn (2 * a) = sgn a" by (simp add: sgn_mult)
  show ?thesis
  proof (cases "- 1022 \<le> expo a")
    case True
    have "quantum (2 * a) = 2 powi (expo a + 1 - 52)"
      using True by (simp add: quantum_def expo_double[OF False] max_def)
    also have "\<dots> = 2 * 2 powi (expo a - 52)"
      using pow2_split[of 1 "expo a - 52"] by (simp add: algebra_simps)
    also have "\<dots> = 2 * quantum a" using True by (simp add: quantum_def max_def)
    finally have u: "quantum (2 * a) = 2 * quantum a" .
    have "\<bar>2 * a\<bar> / quantum (2 * a) = of_int m"
      using quantum_pos[of a] by (simp add: u abs_mult am)
    then have "round_fin (2 * a) = sgn a * of_int m * (2 * quantum a)"
      using False by (simp add: round_fin_def s u rne_of_int)
    also have "\<dots> = 2 * (sgn a * of_int m * quantum a)" by simp
    also have "\<dots> = 2 * a" using a by simp
    finally show ?thesis .
  next
    case False
    then have u: "quantum (2 * a) = quantum a"
      by (simp add: quantum_def expo_double[OF \<open>a \<noteq> 0\<close>] max_def)
    have "\<bar>2 * a\<bar> / quantum (2 * a) = of_int (2 * m)"
      using quantum_pos[of a] by (simp add: u abs_mult am)
    then have "round_fin (2 * a) = sgn a * of_int (2 * m) * quantum a"
      using \<open>a \<noteq> 0\<close> by (simp only: round_fin_def s u rne_of_int) simp
    also have "\<dots> = 2 * (sgn a * of_int m * quantum a)" by simp
    also have "\<dots> = 2 * a" using a by simp
    finally show ?thesis .
  qed
qed

lemma round64_double:
  assumes "round64 a = Fin a" and "\<bar>a\<bar> < 2 ^ 1023"
  shows "round64 (2 * a) = Fin (2 * a)"
proof -
  have "round_fin a = a" using round64_Fin_D[OF assms(1)] by simp
  then have "round_fin (2 * a) = 2 * a" by (rule round_fin_double)
  moreover have "\<bar>2 * a\<bar> < 2 ^ 1024" using assms(2) by (simp add: abs_mult)
  ultimately show ?thesis by (auto simp: round64_alt abs_if split: if_splits)
qed


subsection \<open>Some binary64 values\<close>

lemma round64_0: "round64 0 = Fin 0"
  by (simp add: round64_def round_fin_def)

lemma round64_1: "round64 1 = Fin 1"
  by (rule round64_cert[where e = 0]) (simp_all add: r64)

lemma round64_100: "round64 100 = Fin 100"
  by (rule round64_cert[where e = 6]) (simp_all add: r64)

lemma round64_10000: "round64 10000 = Fin 10000"
  by (rule round64_cert[where e = 13]) (simp_all add: r64)

lemma round64_half: "round64 (1 / 2) = Fin (1 / 2)"
  by (rule round64_cert[where e = "- 1"]) (simp_all add: r64)

lemma round64_10000_half: "round64 (20001 / 2) = Fin (20001 / 2)"
  by (rule round64_cert[where e = 13]) (simp_all add: r64)

lemma round64_ce_a: "round64 (11 / 4000) = Fin (3170534137668829 / 1152921504606846976)"
  by (rule round64_cert[where e = "- 9"]) (simp_all add: r64)

lemma round64_ce_b: "round64 (79263353441720725 / 288230376151711744) = Fin (4953959590107545 / 18014398509481984)"
  by (rule round64_cert[where e = "- 2"]) (simp_all add: r64)

lemma round64_ce_c: "round64 (123848989752688625 / 4503599627370496) = Fin (7740561859543039 / 281474976710656)"
  by (rule round64_cert[where e = 4]) (simp_all add: r64)

lemma round64_ce_d: "round64 (7881299347898367 / 281474976710656) = Fin (7881299347898367 / 281474976710656)"
  by (rule round64_cert[where e = 4]) (simp_all add: r64)

lemma round64_27: "round64 27 = Fin 27"
  by (rule round64_cert[where e = 4]) (simp_all add: r64)

lemma round64_27_100: "round64 (27 / 100) = Fin (607985949695017 / 2251799813685248)"
  by (rule round64_cert[where e = "- 2"]) (simp_all add: r64)

lemma round64_sp_a: "round64 (11 / 40) = Fin (2476979795053773 / 9007199254740992)"
  by (rule round64_cert[where e = "- 2"]) (simp_all add: r64)

lemma round64_sp_c: "round64 (61924494876344325 / 2251799813685248) = Fin (7740561859543041 / 281474976710656)"
  by (rule round64_cert[where e = 4]) (simp_all add: r64)

lemma round64_sp_d: "round64 (7881299347898369 / 281474976710656) = Fin (7881299347898369 / 281474976710656)"
  by (rule round64_cert[where e = 4]) (simp_all add: r64)

lemma round64_28: "round64 28 = Fin 28"
  by (rule round64_cert[where e = 4]) (simp_all add: r64)

lemma round64_7_25: "round64 (7 / 25) = Fin (1261007895663739 / 4503599627370496)"
  by (rule round64_cert[where e = "- 2"]) (simp_all add: r64)

lemma round64_2: "round64 2 = Fin 2"
  by (rule round64_cert[where e = 1]) (simp_all add: r64)

lemma round64_200: "round64 200 = Fin 200"
  by (rule round64_cert[where e = 7]) (simp_all add: r64)

subsection \<open>The error of a rounding\<close>

lemma rne_error: "\<bar>of_int (rne x) - x\<bar> \<le> 1 / 2"
proof -
  have f: "of_int \<lfloor>x\<rfloor> \<le> x" "x < of_int \<lfloor>x\<rfloor> + 1" by linarith+
  consider (lo) "x - of_int \<lfloor>x\<rfloor> < 1 / 2" | (hi) "1 / 2 < x - of_int \<lfloor>x\<rfloor>"
    | (tie) "x - of_int \<lfloor>x\<rfloor> = 1 / 2" by linarith
  then show ?thesis
  proof cases
    case lo
    then have "rne x = \<lfloor>x\<rfloor>" by (simp add: rne_def Let_def)
    then show ?thesis using f lo by simp
  next
    case hi
    then have "rne x = \<lfloor>x\<rfloor> + 1" by (simp add: rne_def Let_def)
    then show ?thesis using f hi by simp
  next
    case tie
    then have "rne x = \<lfloor>x\<rfloor> \<or> rne x = \<lfloor>x\<rfloor> + 1" by (simp add: rne_def Let_def)
    then show ?thesis using f tie by auto
  qed
qed

lemma round_fin_error: "\<bar>round_fin q - q\<bar> \<le> quantum q / 2"
proof (cases "q = 0")
  case True
  then show ?thesis using quantum_pos[of 0] by (simp add: round_fin_def)
next
  case False
  define u where "u = quantum q"
  have u: "0 < u" by (simp add: u_def quantum_pos)
  define x where "x = \<bar>q\<bar> / u"
  have "q = sgn q * \<bar>q\<bar>" by (simp add: sgn_mult_abs)
  also have "\<bar>q\<bar> = x * u" using u by (simp add: x_def)
  finally have q: "q = sgn q * (x * u)" .
  have r: "round_fin q = sgn q * (of_int (rne x) * u)"
    using False by (simp add: round_fin_def u_def x_def)
  have "round_fin q - q = sgn q * ((of_int (rne x) - x) * u)"
    by (subst r, subst (2) q) (simp add: algebra_simps)
  then have "\<bar>round_fin q - q\<bar> = \<bar>of_int (rne x) - x\<bar> * u"
    using False u by (simp add: abs_mult abs_sgn_eq)
  also have "\<dots> \<le> 1 / 2 * u"
    using rne_error[of x] u by (intro mult_right_mono) simp_all
  finally show ?thesis by (simp add: u_def)
qed

lemma pow2_le_1: "E \<le> 0 \<Longrightarrow> (2::rat) powi E \<le> 1"
  using power_int_increasing[of E 0 "2::rat"] by simp

lemma quantum_le:
  assumes "q \<noteq> 0" and "\<bar>q\<bar> \<le> B" and "1 \<le> B"
  shows "quantum q \<le> B / 2 ^ 52"
proof -
  define E where "E = max (expo q) (- 1022)"
  have "(2::rat) powi E \<le> B"
  proof (cases "- 1022 \<le> expo q")
    case True
    then have "E = expo q" by (simp add: E_def)
    then show ?thesis using expo_bounds(1)[OF assms(1)] assms(2) by simp
  next
    case False
    then have "E \<le> 0" by (simp add: E_def)
    then show ?thesis using pow2_le_1[of E] assms(3) by simp
  qed
  moreover have "quantum q = 2 powi E / 2 ^ 52"
    using pow2_52[of E] by (simp add: quantum_def E_def)
  ultimately show ?thesis by (simp add: divide_right_mono)
qed

lemma round64_error:
  assumes "\<bar>q\<bar> \<le> B" and "1 \<le> B" and "B \<le> 2 ^ 1023"
  shows "\<exists>r. round64 q = Fin r \<and> \<bar>r - q\<bar> \<le> B / 2 ^ 53"
proof -
  have e: "\<bar>round_fin q - q\<bar> \<le> B / 2 ^ 53"
  proof (cases "q = 0")
    case True
    then show ?thesis using assms(2) by (simp add: round_fin_def)
  next
    case False
    have "\<bar>round_fin q - q\<bar> \<le> quantum q / 2" by (rule round_fin_error)
    also have "\<dots> \<le> (B / 2 ^ 52) / 2"
      using quantum_le[OF False assms(1,2)] by simp
    also have "\<dots> = B / 2 ^ 53" by simp
    finally show ?thesis .
  qed
  have "B / 2 ^ 53 < B" using assms(2) by (simp add: field_simps)
  with e assms(1) have "\<bar>round_fin q\<bar> < 2 * B" by linarith
  also have "\<dots> \<le> 2 * 2 ^ 1023" using assms(3) by simp
  finally have "\<bar>round_fin q\<bar> < 2 ^ 1024" by simp
  then have "round64 q = Fin (round_fin q)"
    by (auto simp: round64_alt abs_if split: if_splits)
  with e show ?thesis by blast
qed


lemma round64_within:
  assumes "- B \<le> q" and "q \<le> B" and "1 \<le> B" and "B \<le> 2 ^ 1023" and "B / 2 ^ 53 \<le> d"
  shows "\<exists>r. round64 q = Fin r \<and> q - d \<le> r \<and> r \<le> q + d"
proof -
  have "\<bar>q\<bar> \<le> B" using assms(1,2) by (simp add: abs_le_iff)
  from round64_error[OF this assms(3,4)]
  obtain r where r: "round64 q = Fin r" "\<bar>r - q\<bar> \<le> B / 2 ^ 53" by blast
  from r(2) assms(5) have "\<bar>r - q\<bar> \<le> d" by simp
  then have "q - d \<le> r" "r \<le> q + d" by (simp_all add: abs_le_iff)
  with r(1) show ?thesis by blast
qed

lemma trunc_bounds:
  "of_int (trunc z) < z + 1" "z - 1 < of_int (trunc z)"
  "0 \<le> z \<Longrightarrow> of_int (trunc z) \<le> z"
  by (simp_all add: trunc_def) linarith+


lemma roundToTwo_close:
  assumes "- (10 ^ 6) \<le> n" and "n \<le> 10 ^ 6"
  shows "\<exists>q. roundToTwo oor (Fin n) = Fin q \<and>
           n - 1 / 200 - 1 / (2 * 10 ^ 9) \<le> q \<and> q \<le> n + 3 / 200 + 1 / (2 * 10 ^ 9) \<and>
           (0 \<le> n \<longrightarrow> q \<le> n + 1 / 200 + 1 / (2 * 10 ^ 9))"
proof -
  have "- (10 ^ 8) \<le> n * 100" "n * 100 \<le> 10 ^ 8" using assms by simp_all
  from round64_within[OF this, where d = "12 / 10 ^ 9"]
  obtain y where y: "round64 (n * 100) = Fin y" "n * 100 - 12 / 10 ^ 9 \<le> y" "y \<le> n * 100 + 12 / 10 ^ 9"
    by auto
  have "- (10 ^ 8 + 1) \<le> y + 1 / 2" "y + 1 / 2 \<le> 10 ^ 8 + 1" using y(2,3) assms by simp_all
  from round64_within[OF this, where d = "12 / 10 ^ 9"]
  obtain z where z: "round64 (y + 1 / 2) = Fin z" "y + 1 / 2 - 12 / 10 ^ 9 \<le> z"
    "z \<le> y + 1 / 2 + 12 / 10 ^ 9"
    by auto
  define t where "t = trunc z"
  have tz: "of_int t < z + 1" "z - 1 < of_int t" by (simp_all add: t_def trunc_bounds)
  have tb: "- (10 ^ 8 + 3) \<le> (of_int t :: rat)" "(of_int t :: rat) \<le> 10 ^ 8 + 3"
    using tz z(2,3) y(2,3) assms by simp_all
  have "(of_int (- (10 ^ 8 + 3)) :: rat) \<le> of_int t" "(of_int t :: rat) \<le> of_int (10 ^ 8 + 3)"
    using tb by simp_all
  then have "- (10 ^ 8 + 3) \<le> t" "t \<le> 10 ^ 8 + 3" by (simp_all only: of_int_le_iff)
  then have "- (2 ^ 63) \<le> t \<and> t < 2 ^ 63" by simp
  then have i: "int_of_float64 oor (Fin z) = t"
    by (simp add: int_of_float64_def Let_def t_def[symmetric])
  from round64_within[OF tb, where d = "12 / 10 ^ 9"]
  obtain w where w: "round64 (of_int t) = Fin w" "of_int t - 12 / 10 ^ 9 \<le> w"
    "w \<le> of_int t + 12 / 10 ^ 9"
    by auto
  have "- (10 ^ 6 + 1) \<le> w / 100" "w / 100 \<le> 10 ^ 6 + 1" using w(2,3) tb by simp_all
  from round64_within[OF this, where d = "12 / 10 ^ 11"]
  obtain q where q: "round64 (w / 100) = Fin q" "w / 100 - 12 / 10 ^ 11 \<le> q"
    "q \<le> w / 100 + 12 / 10 ^ 11"
    by auto
  have r: "roundToTwo oor (Fin n) = Fin q"
    by (simp add: roundToTwo_def y(1) z(1) i float64_of_int_def w(1) q(1))
  have lo: "n - 1 / 200 - 1 / (2 * 10 ^ 9) \<le> q"
    using y(2) z(2) tz(2) w(2) q(2) by simp
  have hi: "q \<le> n + 3 / 200 + 1 / (2 * 10 ^ 9)"
    using y(3) z(3) tz(1) w(3) q(3) by simp
  have hi': "q \<le> n + 1 / 200 + 1 / (2 * 10 ^ 9)" if "0 \<le> n"
  proof -
    have "0 \<le> n * 100" using that by simp
    then have "0 \<le> round_fin (n * 100)" by (rule round_fin_nonneg)
    then have "0 \<le> y" using round64_Fin_D[OF y(1)] by simp
    then have "0 \<le> y + 1 / 2" by simp
    then have "0 \<le> round_fin (y + 1 / 2)" by (rule round_fin_nonneg)
    then have "0 \<le> z" using round64_Fin_D[OF z(1)] by simp
    then have "of_int t \<le> z" by (simp add: t_def trunc_bounds)
    then show ?thesis
      using y(3) z(3) w(3) q(3) by simp
  qed
  from r lo hi hi' show ?thesis by blast
qed

subsection \<open>Integers below \<open>2 ^ 53\<close> are binary64 values\<close>

lemma round_fin_int:
  assumes "0 < n" and "n < 2 ^ 53"
  shows "round_fin (of_int n) = of_int n"
proof -
  let ?q = "of_int n :: rat"
  have q: "?q \<noteq> 0" "0 < ?q" "\<bar>?q\<bar> = ?q" using assms(1) by simp_all
  define e where "e = expo ?q"
  have "(2::rat) powi 0 \<le> ?q" using assms(1) by simp
  also have "\<dots> < 2 powi (e + 1)" using expo_bounds(2)[OF q(1)] by (simp add: e_def q(3))
  finally have e0: "0 \<le> e" using pow2_less_imp[of 0 "e + 1"] by simp
  have "(2::rat) powi e \<le> ?q" using expo_bounds(1)[OF q(1)] by (simp add: e_def q(3))
  also have "?q < of_int (2 ^ 53)" using assms(2) by (simp only: of_int_less_iff)
  also have "(of_int (2 ^ 53) :: rat) = 2 powi 53" by simp
  finally have e53: "e \<le> 52" using pow2_less_imp[of e 53] by simp
  define k where "k = nat (52 - e)"
  have u: "quantum ?q = 1 / 2 ^ k"
  proof -
    have "max e (- 1022) - 52 = - int k" using e0 e53 by (simp add: k_def)
    then have "quantum ?q = 2 powi (- int k)" by (simp add: quantum_def e_def)
    then show ?thesis by (simp add: power_int_minus field_simps)
  qed
  have "?q / quantum ?q = of_int (n * 2 ^ k)" by (simp add: u)
  then have "rne (\<bar>?q\<bar> / quantum ?q) = n * 2 ^ k" by (simp only: q(3) rne_of_int)
  then have "round_fin ?q = sgn ?q * of_int (n * 2 ^ k) * (1 / 2 ^ k)"
    using q(1) by (simp only: round_fin_def u if_False)
  also have "\<dots> = ?q" using q(2) by simp
  finally show ?thesis .
qed

lemma round64_int:
  assumes "0 \<le> n" and "n < 2 ^ 53"
  shows "round64 (of_int n) = Fin (of_int n)"
proof (cases "n = 0")
  case True
  then show ?thesis by (simp add: round64_0)
next
  case False
  with assms have "round_fin (of_int n) = of_int n" by (intro round_fin_int) simp_all
  moreover have "(of_int n :: rat) < of_int (2 ^ 53)" using assms(2) by (simp only: of_int_less_iff)
  moreover have "(of_int (2 ^ 53) :: rat) \<le> 2 ^ 1024"
  proof -
    have "(2::rat) ^ 53 \<le> 2 ^ 1024" by (rule power_increasing) simp_all
    then show ?thesis by simp
  qed
  moreover have "(0::rat) \<le> of_int n" using assms(1) by simp
  ultimately show ?thesis by (simp add: round64_alt)
qed

subsection \<open>transformData: the values\<close>

lemma roundToTwo_range:
  assumes "0 \<le> n" and "n \<le> 100"
  shows "\<exists>q. roundToTwo oor (Fin n) = Fin q \<and> 0 \<le> q \<and> q \<le> 100"
proof -
  have "0 \<le> n * 100" "n * 100 \<le> 10000" using assms by simp_all
  from round64_between[OF this round64_0 round64_10000]
  obtain y where y: "round64 (n * 100) = Fin y" "0 \<le> y" "y \<le> 10000" by blast
  have "1 / 2 \<le> y + 1 / 2" "y + 1 / 2 \<le> 20001 / 2" using y by simp_all
  from round64_between[OF this round64_half round64_10000_half]
  obtain z where z: "round64 (y + 1 / 2) = Fin z" "1 / 2 \<le> z" "z \<le> 20001 / 2" by blast
  define t where "t = trunc z"
  have t: "0 \<le> t" "t \<le> 10000"
  proof -
    have "0 \<le> z" using z(2) by simp
    then have tz: "t = \<lfloor>z\<rfloor>" by (simp add: t_def trunc_def)
    show "0 \<le> t" using \<open>0 \<le> z\<close> by (simp add: tz)
    have "z < of_int 10000 + 1" using z(3) by simp
    then show "t \<le> 10000" unfolding tz by (simp only: floor_le_iff)
  qed
  have i: "int_of_float64 oor (Fin z) = t"
    using t by (simp add: int_of_float64_def Let_def t_def[symmetric])
  have "(0::rat) \<le> of_int t" "(of_int t :: rat) \<le> 10000" using t by simp_all
  from round64_between[OF this round64_0 round64_10000]
  obtain w where w: "round64 (of_int t) = Fin w" "0 \<le> w" "w \<le> 10000" by blast
  have "0 \<le> w / 100" "w / 100 \<le> 100" using w by simp_all
  from round64_between[OF this round64_0 round64_100]
  obtain q where q: "round64 (w / 100) = Fin q" "0 \<le> q" "q \<le> 100" by blast
  have "roundToTwo oor (Fin n) = Fin q"
    by (simp add: roundToTwo_def y z i float64_of_int_def w q)
  with q show ?thesis by blast
qed

lemma normalize_range:
  assumes "fle (Fin 0) v" and "fle v (Fin 1000)"
  shows "fle (Fin 0) (normalize oor v) \<and> fle (normalize oor v) (Fin 100)"
proof -
  from assms obtain a where v: "v = Fin a" and a: "0 \<le> a" "a \<le> 1000"
    by (cases v) simp_all
  have "0 \<le> a / 1000" "a / 1000 \<le> 1" using a by simp_all
  from round64_between[OF this round64_0 round64_1]
  obtain d where d: "round64 (a / 1000) = Fin d" "0 \<le> d" "d \<le> 1" by blast
  have "0 \<le> d * 100" "d * 100 \<le> 100" using d by simp_all
  from round64_between[OF this round64_0 round64_100]
  obtain n where n: "round64 (d * 100) = Fin n" "0 \<le> n" "n \<le> 100" by blast
  from roundToTwo_range[OF n(2,3)]
  obtain q where q: "roundToTwo oor (Fin n) = Fin q" "0 \<le> q" "q \<le> 100" by blast
  have "\<not> 100 < n" using n(3) by simp
  then have "normalize oor v = Fin q"
    by (simp add: normalize_def v d n q fgt_def)
  with q show ?thesis by simp
qed


lemma transformData_ok:
  assumes "1 \<le> batchSize"
  shows "transformData oor data batchSize =
     Inr [''type'' \<mapsto> VStr ''transformation'',
          ''original_count'' \<mapsto> VInt (len data),
          ''transformed'' \<mapsto> VFloats (map (normalize oor) data),
          ''batch_results'' \<mapsto> VObjs (map (\<lambda>(k, batch). processBatch oor batch (int k))
                                     (enumerate 1 (batch_slices data batchSize 0))),
          ''batches_processed'' \<mapsto> VInt (len (batch_slices data batchSize 0))]"
proof -
  have b: "0 < batchSize" using assms by simp
  have "transform_loop oor data batchSize 0 ([], []) =
      Inr (map (normalize oor) data,
           map (\<lambda>(k, batch). processBatch oor batch (int k)) (enumerate 1 (batch_slices data batchSize 0)))"
    using transform_loop_eq[OF b, of 0 oor data "([], [])"] by simp
  then show ?thesis by (simp add: transformData_def then_do_def len_def)
qed

lemma roundToTwo_hundredths:
  assumes "0 \<le> n" and "n \<le> 100"
  shows "\<exists>t q. 0 \<le> t \<and> t \<le> 10000 \<and> roundToTwo oor (Fin n) = Fin q \<and>
           round64 (of_int t / 100) = Fin q \<and>
           n - 1 / 200 - 1 / 10 ^ 13 \<le> of_int t / 100 \<and>
           of_int t / 100 \<le> n + 1 / 200 + 1 / 10 ^ 13 \<and>
           of_int t / 100 - 1 / 10 ^ 13 \<le> q \<and> q \<le> of_int t / 100 + 1 / 10 ^ 13"
proof -
  have "0 \<le> n * 100" "n * 100 \<le> 10000" using assms by simp_all
  from round64_between[OF this round64_0 round64_10000]
  obtain y where y: "round64 (n * 100) = Fin y" "0 \<le> y" "y \<le> 10000" by blast
  have "- 10000 \<le> n * 100" "n * 100 \<le> 10000" using assms by simp_all
  from round64_within[OF this, where d = "2 / 10 ^ 12"] y(1)
  have y': "n * 100 - 2 / 10 ^ 12 \<le> y" "y \<le> n * 100 + 2 / 10 ^ 12" by auto
  have "1 / 2 \<le> y + 1 / 2" "y + 1 / 2 \<le> 20001 / 2" using y by simp_all
  from round64_between[OF this round64_half round64_10000_half]
  obtain z where z: "round64 (y + 1 / 2) = Fin z" "1 / 2 \<le> z" "z \<le> 20001 / 2" by blast
  have "- 10001 \<le> y + 1 / 2" "y + 1 / 2 \<le> 10001" using y by simp_all
  from round64_within[OF this, where d = "2 / 10 ^ 12"] z(1)
  have z': "y + 1 / 2 - 2 / 10 ^ 12 \<le> z" "z \<le> y + 1 / 2 + 2 / 10 ^ 12" by auto
  define t where "t = trunc z"
  have "0 \<le> z" using z(2) by simp
  then have tz: "z - 1 < of_int t" "of_int t \<le> z" by (simp_all add: t_def trunc_bounds)
  have t: "0 \<le> t" "t \<le> 10000"
  proof -
    have "(of_int (- 1) :: rat) < of_int t" using tz(1) z(2) by simp
    then have "- 1 < t" by (simp only: of_int_less_iff)
    then show "0 \<le> t" by simp
    have "(of_int t :: rat) < of_int 10001" using tz(2) z(3) by simp
    then have "t < 10001" by (simp only: of_int_less_iff)
    then show "t \<le> 10000" by simp
  qed
  have i: "int_of_float64 oor (Fin z) = t"
    using t by (simp add: int_of_float64_def Let_def t_def[symmetric])
  have w: "round64 (of_int t) = Fin (of_int t)"
    using t by (intro round64_int) simp_all
  have tb: "(0::rat) \<le> of_int t" "(of_int t :: rat) \<le> 10000" using t by simp_all
  have "- 100 \<le> (of_int t :: rat) / 100" "(of_int t :: rat) / 100 \<le> 100" using tb by simp_all
  from round64_within[OF this, where d = "1 / 10 ^ 13"]
  obtain q where q: "round64 (of_int t / 100) = Fin q" "of_int t / 100 - 1 / 10 ^ 13 \<le> q"
    "q \<le> of_int t / 100 + 1 / 10 ^ 13"
    by auto
  have r: "roundToTwo oor (Fin n) = Fin q"
    by (simp add: roundToTwo_def y(1) z(1) i float64_of_int_def w q(1))
  have lo: "n - 1 / 200 - 1 / 10 ^ 13 \<le> of_int t / 100"
    using y'(1) z'(1) tz(1) by simp
  have hi: "of_int t / 100 \<le> n + 1 / 200 + 1 / 10 ^ 13"
    using y'(2) z'(2) tz(2) by simp
  from t r q lo hi show ?thesis by blast
qed

lemma normalize_hundredths:
  assumes "fle (Fin 0) v" and "fle v (Fin 1000)"
  shows "\<exists>a t q. v = Fin a \<and> 0 \<le> t \<and> t \<le> 10000 \<and> normalize oor v = Fin q \<and>
           round64 (of_int t / 100) = Fin q \<and>
           \<bar>of_int t / 100 - a / 10\<bar> \<le> 1 / 200 + 1 / 10 ^ 12 \<and>
           \<bar>q - a / 10\<bar> \<le> 1 / 200 + 1 / 10 ^ 12"
proof -
  from assms obtain a where v: "v = Fin a" and a: "0 \<le> a" "a \<le> 1000"
    by (cases v) simp_all
  have "0 \<le> a / 1000" "a / 1000 \<le> 1" using a by simp_all
  from round64_between[OF this round64_0 round64_1]
  obtain d where d: "round64 (a / 1000) = Fin d" "0 \<le> d" "d \<le> 1" by blast
  have "- 1 \<le> a / 1000" "a / 1000 \<le> 1" using a by simp_all
  from round64_within[OF this, where d = "2 / 10 ^ 16"] d(1)
  have d': "a / 1000 - 2 / 10 ^ 16 \<le> d" "d \<le> a / 1000 + 2 / 10 ^ 16" by auto
  have "0 \<le> d * 100" "d * 100 \<le> 100" using d by simp_all
  from round64_between[OF this round64_0 round64_100]
  obtain n where n: "round64 (d * 100) = Fin n" "0 \<le> n" "n \<le> 100" by blast
  have "- 100 \<le> d * 100" "d * 100 \<le> 100" using d by simp_all
  from round64_within[OF this, where d = "2 / 10 ^ 14"] n(1)
  have n': "d * 100 - 2 / 10 ^ 14 \<le> n" "n \<le> d * 100 + 2 / 10 ^ 14" by auto
  from roundToTwo_hundredths[OF n(2,3), of oor]
  obtain t q where t: "0 \<le> t" "t \<le> 10000" and q: "roundToTwo oor (Fin n) = Fin q"
    "round64 (of_int t / 100) = Fin q"
    and b: "n - 1 / 200 - 1 / 10 ^ 13 \<le> of_int t / 100"
    "of_int t / 100 \<le> n + 1 / 200 + 1 / 10 ^ 13"
    "of_int t / 100 - 1 / 10 ^ 13 \<le> q" "q \<le> of_int t / 100 + 1 / 10 ^ 13"
    by blast
  have "\<not> 100 < n" using n(3) by simp
  then have e: "normalize oor v = Fin q"
    by (simp add: normalize_def v d(1) n(1) q(1) fgt_def)
  have "a / 10 - (1 / 200 + 1 / 10 ^ 12) \<le> of_int t / 100"
    "of_int t / 100 \<le> a / 10 + (1 / 200 + 1 / 10 ^ 12)"
    using d' n' b(1,2) by simp_all
  then have c1: "\<bar>of_int t / 100 - a / 10\<bar> \<le> 1 / 200 + 1 / 10 ^ 12" by linarith
  have "a / 10 - (1 / 200 + 1 / 10 ^ 12) \<le> q" "q \<le> a / 10 + (1 / 200 + 1 / 10 ^ 12)"
    using d' n' b by simp_all
  then have c2: "\<bar>q - a / 10\<bar> \<le> 1 / 200 + 1 / 10 ^ 12" by linarith
  from v t e q(2) c1 c2 show ?thesis by blast
qed

text \<open>
  Claim C4, as amended. For a batch size of at least 1 the \<^verbatim>\<open>transformed\<close> sequence has one
  element per input value, in the order of the dataset, each the binary64 value of
  \<^verbatim>\<open>roundToTwo\<close> of \<open>value / 1000 * 100\<close> clamped above at 100 (and not below). For a value
  \<open>v\<close> between 0 and 1000 the output lies between 0 and 100, it is the binary64 value
  nearest to \<open>t / 100\<close> for an integer \<open>t\<close> between 0 and 10000, so a number of two
  decimals, and \<open>t / 100\<close> and the output both differ from \<open>v / 10\<close> by at most
  \<open>0.005 + 10\<^sup>-\<^sup>1\<^sup>2\<close>: the output is \<open>v / 10\<close> rounded to two decimals, up to the choice
  between two neighbours when \<open>v / 10\<close> is that close to the middle between them.
\<close>

theorem transform_values:
  assumes "1 \<le> batchSize"
  shows "\<exists>transformed.
     field_of (transformData oor data batchSize) ''transformed'' = Some (VFloats transformed) \<and>
     length transformed = length data \<and>
     (\<forall>k < length data.
        transformed ! k =
          roundToTwo oor
            (let normalized = fmul (fdiv (data ! k) (Fin 1000)) (Fin 100)
             in if fgt normalized (Fin 100) then Fin 100 else normalized) \<and>
        (fle (Fin 0) (data ! k) \<and> fle (data ! k) (Fin 1000) \<longrightarrow>
           fle (Fin 0) (transformed ! k) \<and> fle (transformed ! k) (Fin 100) \<and>
           (\<exists>v t q. data ! k = Fin v \<and> transformed ! k = Fin q \<and>
              0 \<le> t \<and> t \<le> 10000 \<and> round64 (of_int t / 100) = Fin q \<and>
              \<bar>of_int t / 100 - v / 10\<bar> \<le> 1 / 200 + 1 / 10 ^ 12 \<and>
              \<bar>q - v / 10\<bar> \<le> 1 / 200 + 1 / 10 ^ 12)))"
proof (rule exI[of _ "map (normalize oor) data"], intro conjI allI impI)
  show "field_of (transformData oor data batchSize) ''transformed'' =
        Some (VFloats (map (normalize oor) data))"
    by (simp add: transformData_ok[OF assms] field_of_def)
  show "length (map (normalize oor) data) = length data"
    by simp
next
  fix k
  assume "k < length data"
  then show "map (normalize oor) data ! k =
      roundToTwo oor
        (let normalized = fmul (fdiv (data ! k) (Fin 1000)) (Fin 100)
         in if fgt normalized (Fin 100) then Fin 100 else normalized)"
    by (simp add: normalize_def Let_def)
next
  fix k
  assume k: "k < length data" and r: "fle (Fin 0) (data ! k) \<and> fle (data ! k) (Fin 1000)"
  from r normalize_range[of "data ! k" oor]
  have "fle (Fin 0) (normalize oor (data ! k)) \<and> fle (normalize oor (data ! k)) (Fin 100)"
    by blast
  with k show "fle (Fin 0) (map (normalize oor) data ! k)"
    and "fle (map (normalize oor) data ! k) (Fin 100)"
    by simp_all
  from r normalize_hundredths[of "data ! k" oor]
  have "\<exists>v t q. data ! k = Fin v \<and> normalize oor (data ! k) = Fin q \<and>
          0 \<le> t \<and> t \<le> 10000 \<and> round64 (of_int t / 100) = Fin q \<and>
          \<bar>of_int t / 100 - v / 10\<bar> \<le> 1 / 200 + 1 / 10 ^ 12 \<and>
          \<bar>q - v / 10\<bar> \<le> 1 / 200 + 1 / 10 ^ 12"
    by blast
  with k show "\<exists>v t q. data ! k = Fin v \<and> map (normalize oor) data ! k = Fin q \<and>
          0 \<le> t \<and> t \<le> 10000 \<and> round64 (of_int t / 100) = Fin q \<and>
          \<bar>of_int t / 100 - v / 10\<bar> \<le> 1 / 200 + 1 / 10 ^ 12 \<and>
          \<bar>q - v / 10\<bar> \<le> 1 / 200 + 1 / 10 ^ 12"
    by simp
qed

lemma normalize_11_4: "normalize oor (Fin (11 / 4)) = Fin (607985949695017 / 2251799813685248)"
  by (simp add: normalize_def Let_def fgt_def roundToTwo_def round64_ce_a round64_ce_b
      round64_ce_c round64_ce_d int_of_float64_def trunc_def floor_rat_numeral_div
      float64_of_int_def round64_27 round64_27_100)

lemma roundToTwo_11_40:
  "roundToTwo oor (fdiv (Fin (11 / 4)) (Fin 10)) = Fin (1261007895663739 / 4503599627370496)"
  by (simp add: roundToTwo_def round64_sp_a round64_sp_c round64_sp_d int_of_float64_def
      trunc_def floor_rat_numeral_div float64_of_int_def round64_28 round64_7_25)

text \<open>
  Claim C4 as stated also says that for \<open>0 \<le> v \<le> 1000\<close> the output is \<open>round(v / 10, 2)\<close>.
  In binary64 \<open>v / 1000 * 100\<close> is not \<open>v / 10\<close>: for \<open>v = 2.75\<close> the quotient by 1000
  rounds down, the product with 100 is 0.27499999999999997, and the output is 0.27, where
  \<open>v / 10 = 0.275\<close> rounds to 0.28, on exact numbers and by \<^verbatim>\<open>roundToTwo\<close> on the binary64
  quotient alike.
\<close>

theorem transform_round_counterexample:
  "field_of (transformData oor_amd64 [Fin (11 / 4)] 1) ''transformed'' =
     Some (VFloats [round64 (27 / 100)]) \<and>
   round_2dp (11 / 4 / 10) = 28 / 100 \<and>
   roundToTwo oor_amd64 (fdiv (Fin (11 / 4)) (Fin 10)) = round64 (28 / 100) \<and>
   round64 (27 / 100) \<noteq> round64 (28 / 100)"
proof -
  have "(1::int) \<le> 1" by simp
  from transformData_ok[OF this, of oor_amd64 "[Fin (11 / 4)]"]
  have "field_of (transformData oor_amd64 [Fin (11 / 4)] 1) ''transformed'' =
     Some (VFloats [round64 (27 / 100)])"
    by (simp add: field_of_def normalize_11_4 round64_27_100)
  moreover have "round_2dp (11 / 4 / 10) = 28 / 100"
    by (simp add: round_2dp_def trunc_def floor_rat_numeral_div)
  moreover have "roundToTwo oor_amd64 (fdiv (Fin (11 / 4)) (Fin 10)) = round64 (28 / 100)"
  proof -
    have "round64 (28 / 100) = round64 (7 / 25)" by simp
    then show ?thesis by (simp only: roundToTwo_11_40 round64_7_25)
  qed
  moreover have "round64 (27 / 100) \<noteq> round64 (28 / 100)"
    by (simp add: round64_27_100 round64_7_25)
  ultimately show ?thesis by blast
qed

theorem transform_values_witness:
  "(1::int) \<le> 2 \<and> fle (Fin 0) (Fin (11 / 4)) \<and> fle (Fin (11 / 4)) (Fin 1000) \<and>
   field_of (transformData oor_amd64 [Fin (11 / 4), Fin 2000] 2) ''transformed'' =
     Some (VFloats [round64 (27 / 100), Fin 100]) \<and>
   fle (Fin 0) (round64 (27 / 100)) \<and> fle (round64 (27 / 100)) (Fin 100) \<and>
   round64 (27 / 100) = Fin (607985949695017 / 2251799813685248) \<and>
   \<bar>607985949695017 / 2251799813685248 - 11 / 4 / 10\<bar> \<le> (1 / 200 + 1 / 10 ^ 12 :: rat)"
proof -
  have h: "(1::int) \<le> 2" by simp
  have n: "normalize oor_amd64 (Fin 2000) = Fin 100"
    by (simp add: normalize_def Let_def fgt_def roundToTwo_def round64_2 round64_200
        round64_10000 round64_10000_half int_of_float64_def trunc_def floor_rat_numeral_div
        float64_of_int_def round64_100)
  from transform_values[OF h, of oor_amd64 "[Fin (11 / 4), Fin 2000]"]
  obtain transformed where
    f: "field_of (transformData oor_amd64 [Fin (11 / 4), Fin 2000] 2) ''transformed'' =
          Some (VFloats transformed)"
    and l: "length transformed = length [Fin (11 / 4), Fin 2000]"
    and K: "\<forall>k < length [Fin (11 / 4), Fin 2000].
        transformed ! k =
          roundToTwo oor_amd64
            (let normalized = fmul (fdiv ([Fin (11 / 4), Fin 2000] ! k) (Fin 1000)) (Fin 100)
             in if fgt normalized (Fin 100) then Fin 100 else normalized) \<and>
        (fle (Fin 0) ([Fin (11 / 4), Fin 2000] ! k) \<and> fle ([Fin (11 / 4), Fin 2000] ! k) (Fin 1000) \<longrightarrow>
           fle (Fin 0) (transformed ! k) \<and> fle (transformed ! k) (Fin 100) \<and>
           (\<exists>v t q. [Fin (11 / 4), Fin 2000] ! k = Fin v \<and> transformed ! k = Fin q \<and>
              0 \<le> t \<and> t \<le> 10000 \<and> round64 (of_int t / 100) = Fin q \<and>
              \<bar>of_int t / 100 - v / 10\<bar> \<le> 1 / 200 + 1 / 10 ^ 12 \<and>
              \<bar>q - v / 10\<bar> \<le> 1 / 200 + 1 / 10 ^ 12))"
    by blast
  have e0: "transformed ! 0 = normalize oor_amd64 (Fin (11 / 4))"
    using K[THEN spec, of 0] by (simp add: normalize_def Let_def)
  have e1: "transformed ! Suc 0 = normalize oor_amd64 (Fin 2000)"
    using K[THEN spec, of 1] by (simp add: normalize_def Let_def)
  have "0 < length [Fin (11 / 4), Fin 2000]"
    and "fle (Fin 0) ([Fin (11 / 4), Fin 2000] ! 0) \<and> fle ([Fin (11 / 4), Fin 2000] ! 0) (Fin 1000)"
    by simp_all
  with K have r0: "fle (Fin 0) (transformed ! 0) \<and> fle (transformed ! 0) (Fin 100) \<and>
      (\<exists>v t q. [Fin (11 / 4), Fin 2000] ! 0 = Fin v \<and> transformed ! 0 = Fin q \<and>
              0 \<le> t \<and> t \<le> 10000 \<and> round64 (of_int t / 100) = Fin q \<and>
              \<bar>of_int t / 100 - v / 10\<bar> \<le> 1 / 200 + 1 / 10 ^ 12 \<and>
              \<bar>q - v / 10\<bar> \<le> 1 / 200 + 1 / 10 ^ 12)"
    by blast
  from l have "transformed = [transformed ! 0, transformed ! Suc 0]"
    by (cases transformed; cases "tl transformed") auto
  then have t: "transformed = [round64 (27 / 100), Fin 100]"
    by (simp only: e0 e1 n normalize_11_4 round64_27_100)
  from r0 have "fle (Fin 0) (round64 (27 / 100)) \<and> fle (round64 (27 / 100)) (Fin 100)"
    by (simp add: e0 normalize_11_4 round64_27_100)
  moreover from r0 have
    "\<bar>607985949695017 / 2251799813685248 - 11 / 4 / 10\<bar> \<le> (1 / 200 + 1 / 10 ^ 12 :: rat)"
    by (auto simp: e0 normalize_11_4)
  ultimately show ?thesis using f t by (simp add: round64_27_100)
qed

subsection \<open>analyzeData and the caller's slice\<close>

lemma deref_store: "deref (store m r xs) r' = (if r' = r then xs else deref m r')"
  by (simp add: deref_def store_def)

lemma analyzeData_mem_unfold:
  assumes "data < next_free m" and "len (deref m data) \<noteq> 0"
  shows "analyzeData_mem oor m data batchSize =
     (store (store (store m (next_free m) (replicate (length (deref m data)) (Fin 0))
                     \<lparr>next_free := Suc (next_free m)\<rparr>)
               (next_free m) (deref m data))
        (next_free m) (Float64s (deref m data)),
      analyze_stats oor (deref m data) (Float64s (deref m data)))"
proof -
  have d: "data \<noteq> next_free m" using assms(1) by simp
  show ?thesis
    using assms(2) d
    by (simp add: analyzeData_mem_def make_def copy_def Float64s_mem_def Let_def deref_store
        deref_def store_def)
qed

text \<open>
  Claim C3. \<^verbatim>\<open>analyzeData\<close> leaves every slice that was allocated before the call as it
  was, the caller's dataset among them, with the same elements in the same order: the
  sort works on a new array. What the call returns depends on the contents of the dataset
  only, and is the value-level \<open>analyzeData\<close>.
\<close>

theorem analyzeData_frame:
  assumes "data < next_free m"
  shows "(\<forall>r. r < next_free m \<longrightarrow>
            arrays (fst (analyzeData_mem oor m data batchSize)) r = arrays m r) \<and>
         deref (fst (analyzeData_mem oor m data batchSize)) data = deref m data \<and>
         snd (analyzeData_mem oor m data batchSize) = analyzeData oor (deref m data) batchSize"
proof (cases "len (deref m data) = 0")
  case True
  then show ?thesis by (simp add: analyzeData_mem_def analyzeData_def)
next
  case False
  show ?thesis
    using assms False
    by (simp add: analyzeData_mem_unfold[OF assms False] analyzeData_def store_def deref_def)
qed

theorem analyzeData_frame_witness:
  "(0::nat) < next_free \<lparr>arrays = [0 \<mapsto> [Fin 3, Fin 1, Fin 2]], next_free = 1\<rparr> \<and>
   arrays (fst (analyzeData_mem oor_amd64 \<lparr>arrays = [0 \<mapsto> [Fin 3, Fin 1, Fin 2]], next_free = 1\<rparr> 0 10)) 0 =
     Some [Fin 3, Fin 1, Fin 2] \<and>
   arrays (fst (analyzeData_mem oor_amd64 \<lparr>arrays = [0 \<mapsto> [Fin 3, Fin 1, Fin 2]], next_free = 1\<rparr> 0 10)) 1 =
     Some [Fin 1, Fin 2, Fin 3]"
proof -
  let ?m = "\<lparr>arrays = [0 \<mapsto> [Fin 3, Fin 1, Fin 2]], next_free = 1\<rparr>"
  have h: "(0::nat) < next_free ?m" by simp
  have s: "Float64s [Fin 3, Fin 1, Fin 2] = [Fin 1, Fin 2, Fin 3]"
    by (simp add: Float64s_def)
  have "arrays (fst (analyzeData_mem oor_amd64 ?m 0 10)) 1 = Some [Fin 1, Fin 2, Fin 3]"
    by (simp add: analyzeData_mem_def make_def copy_def Float64s_mem_def Let_def deref_def
        store_def len_def s)
  with h analyzeData_frame[OF h, of oor_amd64 10] show ?thesis by simp
qed


subsection \<open>aggregateData and the iteration order of maps\<close>

lemma largest_fold_stay:
  fixes ranges :: "string \<Rightarrow> int option"
  assumes "ranges k = Some c" and "\<forall>k' c'. k' \<noteq> k \<and> ranges k' = Some c' \<longrightarrow> c' < c"
  shows "fold (\<lambda>key (maxCount, maxKey).
                 case ranges key of
                   None \<Rightarrow> (maxCount, maxKey)
                 | Some count \<Rightarrow> if count > maxCount then (count, key) else (maxCount, maxKey))
              order (c, k) = (c, k)"
proof (induction order)
  case Nil
  show ?case by simp
next
  case (Cons key order)
  have "count \<le> c" if "ranges key = Some count" for count
    using assms that by (cases "key = k") (auto simp: less_imp_le)
  then show ?case using Cons by (cases "ranges key") (auto simp: not_less)
qed

lemma largest_fold_reach:
  fixes ranges :: "string \<Rightarrow> int option"
  assumes "ranges k = Some c" and "\<forall>k' c'. k' \<noteq> k \<and> ranges k' = Some c' \<longrightarrow> c' < c"
    and "k \<in> set order" and "mc < c"
  shows "fold (\<lambda>key (maxCount, maxKey).
                 case ranges key of
                   None \<Rightarrow> (maxCount, maxKey)
                 | Some count \<Rightarrow> if count > maxCount then (count, key) else (maxCount, maxKey))
              order (mc, mk) = (c, k)"
  using assms(3,4)
proof (induction order arbitrary: mc mk)
  case Nil
  then show ?case by simp
next
  case (Cons key order)
  show ?case
  proof (cases "key = k")
    case True
    then show ?thesis
      using assms(1) Cons.prems(2) largest_fold_stay[OF assms(1,2)] by simp
  next
    case False
    with Cons.prems have k: "k \<in> set order" by simp
    show ?thesis
    proof (cases "ranges key")
      case None
      then show ?thesis using Cons.IH[OF k Cons.prems(2)] by simp
    next
      case (Some count)
      with assms(2) False have "count < c" by blast
      then show ?thesis
        using Some Cons.IH[OF k Cons.prems(2)] Cons.IH[OF k \<open>count < c\<close>] by simp
    qed
  qed
qed

lemma count_ranges_nonneg: "count_ranges data k = Some c \<Longrightarrow> 0 \<le> c"
  using count_ranges_key[of k data] count_ranges_other[of k data]
  by (cases "k \<in> set bucket_keys") auto

lemma findLargestGroup_strict:
  assumes "strictly_largest (count_ranges data) k"
    and "iteration_order (count_ranges data) order"
  shows "findLargestGroup order (count_ranges data) = k"
proof -
  from assms(1) obtain c where c: "count_ranges data k = Some c"
    and o: "\<forall>k' c'. k' \<noteq> k \<and> count_ranges data k' = Some c' \<longrightarrow> c' < c"
    by (auto simp: strictly_largest_def)
  have "k \<in> dom (count_ranges data)" using c by auto
  then have k: "k \<in> set order" using assms(2) by (simp add: iteration_order_def)
  obtain k' where k': "k' \<in> set bucket_keys" "k' \<noteq> k"
    by (cases "k = ''0-25''") (auto simp: bucket_keys_def)
  then obtain c' where c': "count_ranges data k' = Some c'"
    using count_ranges_key by blast
  then have "0 \<le> c'" by (rule count_ranges_nonneg)
  moreover have "c' < c" using o k'(2) c' by blast
  ultimately have "0 < c" by simp
  from largest_fold_reach[OF c o k this]
  show ?thesis by (simp add: findLargestGroup_def)
qed

text \<open>
  Claim C9, as amended. \<^verbatim>\<open>analyzeData\<close> and \<^verbatim>\<open>transformData\<close> contain no loop over a map:
  they are functions of the dataset and the batch size (and of the platform's conversion)
  alone, and dispatching to them gives the same result whatever the iteration orders. For \<^verbatim>\<open>aggregateData\<close>, whatever the iteration orders of its two map
  loops, every field other than \<^verbatim>\<open>largest_group\<close> is the same; and when one bucket has a
  strictly largest count \<^verbatim>\<open>largest_group\<close> is that bucket and the whole result is the same,
  as it is for the empty dataset.
\<close>

theorem aggregate_deterministic:
  assumes "iteration_order (count_ranges data) order_pct"
    and "iteration_order (count_ranges data) order_pct'"
    and "iteration_order (count_ranges data) order_max"
    and "iteration_order (count_ranges data) order_max'"
  shows "(\<forall>key. key \<noteq> ''largest_group'' \<longrightarrow>
            aggregateData oor order_pct order_max data batchSize key =
            aggregateData oor order_pct' order_max' data batchSize key) \<and>
         (\<forall>k. strictly_largest (count_ranges data) k \<longrightarrow>
            aggregateData oor order_pct order_max data batchSize ''largest_group'' = Some (VStr k) \<and>
            aggregateData oor order_pct order_max data batchSize =
            aggregateData oor order_pct' order_max' data batchSize) \<and>
         (data = [] \<longrightarrow>
            aggregateData oor order_pct order_max data batchSize =
            aggregateData oor order_pct' order_max' data batchSize) \<and>
         dispatch oor order_pct order_max ''analyze'' data batchSize =
         dispatch oor order_pct' order_max' ''analyze'' data batchSize \<and>
         dispatch oor order_pct order_max ''transform'' data batchSize =
         dispatch oor order_pct' order_max' ''transform'' data batchSize"
proof -
  have p: "percentages_loop oor order_pct (count_ranges data) (len data) =
           percentages_loop oor order_pct' (count_ranges data) (len data)"
    by (simp add: percentages_loop_order[OF assms(1)] percentages_loop_order[OF assms(2)])
  have a: "aggregateData oor order_pct order_max data batchSize key =
           aggregateData oor order_pct' order_max' data batchSize key"
    if "key \<noteq> ''largest_group''" for key
    using that by (simp add: aggregateData_def Let_def p)
  have b: "aggregateData oor order_pct order_max data batchSize ''largest_group'' = Some (VStr k) \<and>
           aggregateData oor order_pct order_max data batchSize =
           aggregateData oor order_pct' order_max' data batchSize"
    if "strictly_largest (count_ranges data) k" for k
    by (simp add: aggregateData_def Let_def p findLargestGroup_strict[OF that assms(3)]
        findLargestGroup_strict[OF that assms(4)])
  have c: "aggregateData oor order_pct order_max data batchSize =
           aggregateData oor order_pct' order_max' data batchSize" if "data = []"
    using p by (simp add: aggregateData_def Let_def that count_ranges_Nil findLargestGroup_initial)
  have d: "dispatch oor order_pct order_max ''analyze'' data batchSize =
           dispatch oor order_pct' order_max' ''analyze'' data batchSize"
    "dispatch oor order_pct order_max ''transform'' data batchSize =
     dispatch oor order_pct' order_max' ''transform'' data batchSize"
    by (simp_all add: dispatch_def)
  from a b c d show ?thesis by blast
qed

lemma count_ranges_5_30:
  "count_ranges [Fin 5, Fin 30] = [''0-25'' \<mapsto> 1, ''26-50'' \<mapsto> 1, ''51-75'' \<mapsto> 0, ''76-100'' \<mapsto> 0, ''100+'' \<mapsto> 0]"
  by (rule ext) (simp add: count_ranges_def initial_ranges_def incr_def bucket_def)

text \<open>
  Claim C9 as stated includes \<^verbatim>\<open>largest_group\<close>. With a tie for the largest count the
  field depends on the order in which \<^verbatim>\<open>findLargestGroup\<close> visits the map, which Go does not
  fix: for the dataset \<open>[5, 30]\<close> two iteration orders give \<^verbatim>\<open>0-25\<close> and \<^verbatim>\<open>26-50\<close>.
\<close>

theorem aggregate_order_counterexample:
  "iteration_order (count_ranges [Fin 5, Fin 30]) bucket_keys \<and>
   iteration_order (count_ranges [Fin 5, Fin 30]) (rev bucket_keys) \<and>
   aggregateData oor_amd64 bucket_keys bucket_keys [Fin 5, Fin 30] 10 ''largest_group'' =
     Some (VStr ''0-25'') \<and>
   aggregateData oor_amd64 bucket_keys (rev bucket_keys) [Fin 5, Fin 30] 10 ''largest_group'' =
     Some (VStr ''26-50'')"
proof -
  have "iteration_order (count_ranges [Fin 5, Fin 30]) bucket_keys"
    by (simp add: iteration_order_def dom_count_ranges) (simp add: bucket_keys_def)
  moreover have "iteration_order (count_ranges [Fin 5, Fin 30]) (rev bucket_keys)"
    by (simp add: iteration_order_def dom_count_ranges) (simp add: bucket_keys_def)
  moreover have "aggregateData oor_amd64 bucket_keys bucket_keys [Fin 5, Fin 30] 10 ''largest_group'' =
     Some (VStr ''0-25'')"
    by (simp add: aggregateData_def Let_def count_ranges_5_30 findLargestGroup_def bucket_keys_def)
  moreover have "aggregateData oor_amd64 bucket_keys (rev bucket_keys) [Fin 5, Fin 30] 10 ''largest_group'' =
     Some (VStr ''26-50'')"
    by (simp add: aggregateData_def Let_def count_ranges_5_30 findLargestGroup_def bucket_keys_def)
  ultimately show ?thesis by blast
qed

lemma count_ranges_5_30_60_61:
  "count_ranges [Fin 5, Fin 60, Fin 61] =
     [''0-25'' \<mapsto> 1, ''26-50'' \<mapsto> 0, ''51-75'' \<mapsto> 2, ''76-100'' \<mapsto> 0, ''100+'' \<mapsto> 0]"
  by (rule ext) (simp add: count_ranges_def initial_ranges_def incr_def bucket_def)

theorem aggregate_deterministic_witness:
  "iteration_order (count_ranges [Fin 5, Fin 60, Fin 61]) bucket_keys \<and>
   iteration_order (count_ranges [Fin 5, Fin 60, Fin 61]) (rev bucket_keys) \<and>
   strictly_largest (count_ranges [Fin 5, Fin 60, Fin 61]) ''51-75'' \<and>
   aggregateData oor_amd64 bucket_keys bucket_keys [Fin 5, Fin 60, Fin 61] 10 ''largest_group'' =
     Some (VStr ''51-75'') \<and>
   aggregateData oor_amd64 bucket_keys bucket_keys [Fin 5, Fin 60, Fin 61] 10 =
   aggregateData oor_amd64 (rev bucket_keys) (rev bucket_keys) [Fin 5, Fin 60, Fin 61] 10"
proof -
  let ?d = "[Fin 5, Fin 60, Fin 61]"
  have o: "iteration_order (count_ranges ?d) bucket_keys"
    by (simp add: iteration_order_def dom_count_ranges) (simp add: bucket_keys_def)
  have o': "iteration_order (count_ranges ?d) (rev bucket_keys)"
    by (simp add: iteration_order_def dom_count_ranges) (simp add: bucket_keys_def)
  have s: "strictly_largest (count_ranges ?d) ''51-75''"
    by (auto simp: strictly_largest_def count_ranges_5_30_60_61 split: if_splits)
  from aggregate_deterministic[OF o o' o o', of oor_amd64 10] s o o'
  show ?thesis by blast
qed


subsection \<open>analyzeData: minimum, median, maximum\<close>

lemma sdiv_smod_nonneg:
  assumes "0 \<le> (a::int)" and "0 < b"
  shows "a sdiv b = a div b" and "a smod b = a mod b"
  using assms by (simp_all add: signed_divide_int_def signed_modulo_int_def sgn_if)

lemma small_doubleE:
  assumes "small_double x"
  obtains q where "x = Fin q" and "round64 q = Fin q" and "\<bar>q\<bar> < 2 ^ 1023"
  using assms by (cases x) (simp_all add: small_double_def)

lemma length_Float64s: "length (Float64s xs) = length xs"
  by (simp add: Float64s_def)

lemma set_Float64s: "set (Float64s xs) = set xs"
  by (simp add: Float64s_def)

lemma Float64s_sorted:
  assumes "\<forall>x \<in> set data. small_double x" and "i \<le> j" and "j < length data"
  shows "\<exists>a b. Float64s data ! i = Fin a \<and> Float64s data ! j = Fin b \<and> a \<le> b"
proof -
  let ?S = "Float64s data"
  have j: "j < length ?S" and i: "i < length ?S" using assms(2,3) by (simp_all add: length_Float64s)
  have "?S ! i \<in> set data" "?S ! j \<in> set data"
    using i j nth_mem set_Float64s by blast+
  with assms(1) have "small_double (?S ! i)" "small_double (?S ! j)" by blast+
  then obtain a b where a: "?S ! i = Fin a" and b: "?S ! j = Fin b"
    by (auto elim!: small_doubleE)
  have "sorted (map sort_rank ?S)" by (simp add: Float64s_def)
  then have "map sort_rank ?S ! i \<le> map sort_rank ?S ! j"
    using assms(2) j by (intro sorted_nth_mono) simp_all
  then have "a \<le> b" using i j by (simp add: a b)
  with a b show ?thesis by blast
qed

lemma median_between:
  assumes "round64 a = Fin a" and "\<bar>a\<bar> < 2 ^ 1023"
    and "round64 b = Fin b" and "\<bar>b\<bar> < 2 ^ 1023" and "a \<le> b"
  shows "\<exists>m. fdiv (fadd (Fin a) (Fin b)) (Fin 2) = Fin m \<and> a \<le> m \<and> m \<le> b"
proof -
  have "2 * a \<le> a + b" "a + b \<le> 2 * b" using assms(5) by simp_all
  from round64_between[OF this round64_double[OF assms(1,2)] round64_double[OF assms(3,4)]]
  obtain s where s: "round64 (a + b) = Fin s" "2 * a \<le> s" "s \<le> 2 * b" by blast
  have "a \<le> s / 2" "s / 2 \<le> b" using s by simp_all
  from round64_between[OF this assms(1) assms(3)]
  obtain m where m: "round64 (s / 2) = Fin m" "a \<le> m" "m \<le> b" by blast
  have "fdiv (fadd (Fin a) (Fin b)) (Fin 2) = Fin m" by (simp add: s m)
  with m show ?thesis by blast
qed

lemma calculateMedian_between:
  assumes "data \<noteq> []" and "\<forall>x \<in> set data. small_double x"
  shows "\<exists>lo m hi. Float64s data ! 0 = Fin lo \<and> Float64s data ! (length data - 1) = Fin hi \<and>
           calculateMedian (Float64s data) = Inr (Fin m) \<and> lo \<le> m \<and> m \<le> hi"
proof -
  let ?S = "Float64s data"
  let ?n = "length data"
  have n: "0 < ?n" using assms(1) by simp
  have l: "len ?S = int ?n" by (simp add: len_def length_Float64s)
  have d2: "int ?n sdiv 2 = int (?n div 2)" "int ?n smod 2 = int (?n mod 2)"
    by (simp_all add: sdiv_smod_nonneg zdiv_int zmod_int)
  have top: "?n div 2 \<le> ?n - 1" "?n - 1 < ?n" using n by simp_all
  show ?thesis
  proof (cases "even ?n")
    case True
    then have h: "0 < ?n div 2" using n by presburger
    then have lt: "?n div 2 - 1 \<le> ?n div 2" "?n div 2 < ?n" "?n div 2 - 1 < ?n" "0 \<le> ?n div 2 - 1"
      by simp_all
    from Float64s_sorted[OF assms(2) lt(4) lt(3)]
    obtain lo a where lo: "?S ! 0 = Fin lo" "?S ! (?n div 2 - 1) = Fin a" "lo \<le> a"
      by blast
    from Float64s_sorted[OF assms(2) lt(1) lt(2)] lo(2)
    obtain b where b: "?S ! (?n div 2) = Fin b" "a \<le> b"
      by auto
    from Float64s_sorted[OF assms(2) top] b(1)
    obtain hi where hi: "?S ! (?n - 1) = Fin hi" "b \<le> hi"
      by auto
    have "?S ! (?n div 2 - 1) \<in> set ?S" "?S ! (?n div 2) \<in> set ?S"
      using lt by (simp_all add: length_Float64s)
    then have "Fin a \<in> set data" "Fin b \<in> set data"
      unfolding lo(2) b(1) set_Float64s by - assumption+
    then have "small_double (Fin a)" "small_double (Fin b)"
      using assms(2) by blast+
    then have "round64 a = Fin a" "\<bar>a\<bar> < 2 ^ 1023" "round64 b = Fin b" "\<bar>b\<bar> < 2 ^ 1023"
      by (simp_all add: small_double_def)
    from median_between[OF this b(2)]
    obtain m where m: "fdiv (fadd (Fin a) (Fin b)) (Fin 2) = Fin m" "a \<le> m" "m \<le> b" by blast
    have i1: "index ?S (int (?n div 2) - 1) = Inr (Fin a)"
      using h lt lo(2) by (simp add: index_def l nat_diff_distrib)
    have i2: "index ?S (int (?n div 2)) = Inr (Fin b)"
      using lt b(1) by (simp add: index_def l)
    from m(1) have m': "fdiv (round64 (a + b)) (Fin 2) = Fin m" by simp
    have "calculateMedian ?S = Inr (Fin m)"
      using True by (simp add: calculateMedian_def l d2 i1 i2 then_do_def m' Let_def)
    moreover have "lo \<le> m" "m \<le> hi" using lo(3) m(2,3) hi(2) by simp_all
    ultimately show ?thesis using lo(1) hi(1) by blast
  next
    case False
    then have h: "?n div 2 < ?n" "?n mod 2 = 1" "0 \<le> ?n div 2"
      using n by (simp_all add: odd_iff_mod_2_eq_one)
    from Float64s_sorted[OF assms(2) h(3) h(1)]
    obtain lo m where lo: "?S ! 0 = Fin lo" "?S ! (?n div 2) = Fin m" "lo \<le> m"
      by blast
    from Float64s_sorted[OF assms(2) top] lo(2)
    obtain hi where hi: "?S ! (?n - 1) = Fin hi" "m \<le> hi"
      by auto
    have i2: "index ?S (int (?n div 2)) = Inr (Fin m)"
      using h lo(2) by (simp add: index_def l)
    have "calculateMedian ?S = Inr (Fin m)"
      using h by (simp add: calculateMedian_def l d2 i2 Let_def)
    then show ?thesis using lo hi by blast
  qed
qed


lemma analyze_stats_ok:
  assumes "data \<noteq> []" and "length sortedData = length data"
    and "calculateMedian sortedData = Inr median"
  shows "analyze_stats oor data sortedData =
     Inr [''type'' \<mapsto> VStr ''analysis'',
          ''count'' \<mapsto> VInt (len data),
          ''sum'' \<mapsto> VFloat (roundToTwo oor (sum_loop data)),
          ''mean'' \<mapsto> VFloat (roundToTwo oor (fdiv (sum_loop data) (float64_of_int (len data)))),
          ''median'' \<mapsto> VFloat (roundToTwo oor median),
          ''min'' \<mapsto> VFloat (sortedData ! 0),
          ''max'' \<mapsto> VFloat (sortedData ! (length data - 1)),
          ''range'' \<mapsto> VFloat (fsub (sortedData ! (length data - 1)) (sortedData ! 0)),
          ''percentile_25'' \<mapsto> VFloat (sortedData ! (length data div 4)),
          ''percentile_75'' \<mapsto> VFloat (sortedData ! (3 * length data div 4))]"
proof -
  let ?n = "length data"
  have n: "0 < ?n" using assms(1) by simp
  have l: "len sortedData = int ?n" by (simp add: len_def assms(2))
  have i0: "index sortedData 0 = Inr (sortedData ! 0)"
    using n by (simp add: index_def l)
  have e: "nat (int ?n - 1) = ?n - Suc 0" by arith
  have i1: "index sortedData (int ?n - 1) = Inr (sortedData ! (?n - 1))"
    using n by (simp add: index_def l e)
  have q: "int ?n sdiv 4 = int (?n div 4)" "(3 * int ?n) sdiv 4 = int (3 * ?n div 4)"
    by (simp_all add: sdiv_smod_nonneg zdiv_int)
  have i2: "index sortedData (int (?n div 4)) = Inr (sortedData ! (?n div 4))"
    using n by (simp add: index_def l)
  have "3 * ?n div 4 < ?n" using n by arith
  then have i3: "index sortedData (int (3 * ?n div 4)) = Inr (sortedData ! (3 * ?n div 4))"
    by (simp add: index_def l)
  show ?thesis
    by (simp add: analyze_stats_def l i0 i1 q i2 i3 assms(3) then_do_def Let_def)
qed

text \<open>
  Claim C1, as amended. For a non-empty dataset of finite values of magnitude below
  \<open>2 ^ 1023\<close>, \<^verbatim>\<open>min\<close> and \<^verbatim>\<open>max\<close> are the smallest and the largest value of the dataset, the
  median as \<^verbatim>\<open>calculateMedian\<close> computes it lies between them, and the \<^verbatim>\<open>median\<close> field is
  \<^verbatim>\<open>roundToTwo\<close> of that median. When the values have magnitude at most \<open>10\<^sup>6\<close> the field is
  a finite number within the rounding of that median, hence of the range: it is at least
  \<open>min - 0.005 - 10\<^sup>-\<^sup>9\<close> and at most \<open>max + 0.015 + 10\<^sup>-\<^sup>9\<close>, and at most
  \<open>max + 0.005 + 10\<^sup>-\<^sup>9\<close> when no value is negative (the conversion to \<^verbatim>\<open>int\<close> truncates
  toward zero, so a negative median can be rounded up by more than half a hundredth).
\<close>

theorem analyze_min_median_max:
  assumes "data \<noteq> []" and "\<forall>x \<in> set data. small_double x"
  shows "\<exists>lo m hi.
     field_of (analyzeData oor data batchSize) ''min'' = Some (VFloat (Fin lo)) \<and>
     field_of (analyzeData oor data batchSize) ''max'' = Some (VFloat (Fin hi)) \<and>
     calculateMedian (Float64s data) = Inr (Fin m) \<and>
     field_of (analyzeData oor data batchSize) ''median'' = Some (VFloat (roundToTwo oor (Fin m))) \<and>
     lo \<le> m \<and> m \<le> hi \<and>
     Fin lo \<in> set data \<and> Fin hi \<in> set data \<and>
     (\<forall>x \<in> set data. fle (Fin lo) x \<and> fle x (Fin hi)) \<and>
     (- (10 ^ 6) \<le> lo \<and> hi \<le> 10 ^ 6 \<longrightarrow>
        (\<exists>median. field_of (analyzeData oor data batchSize) ''median'' = Some (VFloat (Fin median)) \<and>
           m - 1 / 200 - 1 / 10 ^ 9 \<le> median \<and> median \<le> m + 3 / 200 + 1 / 10 ^ 9 \<and>
           lo - 1 / 200 - 1 / 10 ^ 9 \<le> median \<and> median \<le> hi + 3 / 200 + 1 / 10 ^ 9 \<and>
           (0 \<le> lo \<longrightarrow> median \<le> m + 1 / 200 + 1 / 10 ^ 9 \<and>
                      median \<le> hi + 1 / 200 + 1 / 10 ^ 9)))"
proof -
  let ?S = "Float64s data"
  let ?n = "length data"
  have n: "0 < ?n" using assms(1) by simp
  from calculateMedian_between[OF assms]
  obtain lo m hi where b: "?S ! 0 = Fin lo" "?S ! (?n - 1) = Fin hi"
    "calculateMedian ?S = Inr (Fin m)" "lo \<le> m" "m \<le> hi" by blast
  have r: "analyzeData oor data batchSize = analyze_stats oor data ?S"
    using assms(1) by (simp add: analyzeData_def len_def)
  note s = analyze_stats_ok[OF assms(1) length_Float64s b(3), of oor]
  have f1: "field_of (analyzeData oor data batchSize) ''min'' = Some (VFloat (Fin lo))"
    by (simp add: r s field_of_def b(1))
  from b(2) have b2: "?S ! (?n - Suc 0) = Fin hi" by simp
  have f2: "field_of (analyzeData oor data batchSize) ''max'' = Some (VFloat (Fin hi))"
    by (simp add: r s field_of_def b2)
  have f3: "field_of (analyzeData oor data batchSize) ''median'' = Some (VFloat (roundToTwo oor (Fin m)))"
    by (simp add: r s field_of_def)
  have "?S ! 0 \<in> set ?S" "?S ! (?n - 1) \<in> set ?S"
    using n by (simp_all add: length_Float64s)
  then have mem: "Fin lo \<in> set data" "Fin hi \<in> set data"
    unfolding b(1) b(2) set_Float64s by - assumption+
  have all: "fle (Fin lo) x \<and> fle x (Fin hi)" if "x \<in> set data" for x
  proof -
    from that have "x \<in> set ?S" by (simp add: set_Float64s)
    then obtain i where i: "i < length ?S" "?S ! i = x" by (auto simp: in_set_conv_nth)
    then have i': "0 \<le> i" "i < ?n" "i \<le> ?n - 1" "?n - 1 < ?n"
      using n by (simp_all add: length_Float64s)
    from Float64s_sorted[OF assms(2) i'(1,2)] b(1) i(2)
    obtain q where q: "x = Fin q" "lo \<le> q" by auto
    from Float64s_sorted[OF assms(2) i'(3,4)] b(2) i(2) q(1)
    have "q \<le> hi" by auto
    with q show ?thesis by simp
  qed
  have close: "\<exists>median. field_of (analyzeData oor data batchSize) ''median'' = Some (VFloat (Fin median)) \<and>
           m - 1 / 200 - 1 / 10 ^ 9 \<le> median \<and> median \<le> m + 3 / 200 + 1 / 10 ^ 9 \<and>
           lo - 1 / 200 - 1 / 10 ^ 9 \<le> median \<and> median \<le> hi + 3 / 200 + 1 / 10 ^ 9 \<and>
           (0 \<le> lo \<longrightarrow> median \<le> m + 1 / 200 + 1 / 10 ^ 9 \<and>
                      median \<le> hi + 1 / 200 + 1 / 10 ^ 9)"
    if "- (10 ^ 6) \<le> lo \<and> hi \<le> 10 ^ 6"
  proof -
    from that b(4,5) have "- (10 ^ 6) \<le> m" "m \<le> 10 ^ 6" by simp_all
    from roundToTwo_close[OF this, of oor]
    obtain q where q: "roundToTwo oor (Fin m) = Fin q"
      "m - 1 / 200 - 1 / (2 * 10 ^ 9) \<le> q" "q \<le> m + 3 / 200 + 1 / (2 * 10 ^ 9)"
      "0 \<le> m \<longrightarrow> q \<le> m + 1 / 200 + 1 / (2 * 10 ^ 9)"
      by blast
    have "m - 1 / 200 - 1 / 10 ^ 9 \<le> q" using q(2) by simp
    moreover have "q \<le> m + 3 / 200 + 1 / 10 ^ 9" using q(3) by simp
    moreover have "lo - 1 / 200 - 1 / 10 ^ 9 \<le> q" using q(2) b(4) by simp
    moreover have "q \<le> hi + 3 / 200 + 1 / 10 ^ 9" using q(3) b(5) by simp
    moreover have "q \<le> m + 1 / 200 + 1 / 10 ^ 9" if "0 \<le> lo"
      using q(4) b(4) that by simp
    moreover have "q \<le> hi + 1 / 200 + 1 / 10 ^ 9" if "0 \<le> lo"
      using q(4) b(4,5) that by simp
    ultimately show ?thesis using f3 q(1) by auto
  qed
  from f1 f2 f3 b(3,4,5) mem all close show ?thesis by blast
qed

lemma round64_3: "round64 3 = Fin 3"
  by (rule round64_cert[where e = 1]) (simp_all add: r64)

lemma round64_4: "round64 4 = Fin 4"
  by (rule round64_cert[where e = 2]) (simp_all add: r64)

lemma round64_5: "round64 5 = Fin 5"
  by (rule round64_cert[where e = 2]) (simp_all add: r64)

lemma round64_5_2: "round64 (5 / 2) = Fin (5 / 2)"
  by (rule round64_cert[where e = 1]) (simp_all add: r64)

lemma round64_1_8: "round64 (1 / 8) = Fin (1 / 8)"
  by (rule round64_cert[where e = "- 3"]) (simp_all add: r64)

lemma round64_25_2: "round64 (25 / 2) = Fin (25 / 2)"
  by (rule round64_cert[where e = 3]) (simp_all add: r64)

lemma round64_13: "round64 13 = Fin 13"
  by (rule round64_cert[where e = 3]) (simp_all add: r64)

lemma round64_13_100: "round64 (13 / 100) = Fin (1170935903116329 / 9007199254740992)"
  by (rule round64_cert[where e = "- 3"]) (simp_all add: r64)

lemma round64_1_256: "round64 (1 / 256) = Fin (1 / 256)"
  by (rule round64_cert[where e = "- 8"]) (simp_all add: r64)

lemma round64_25_64: "round64 (25 / 64) = Fin (25 / 64)"
  by (rule round64_cert[where e = "- 2"]) (simp_all add: r64)

lemma round64_57_64: "round64 (57 / 64) = Fin (57 / 64)"
  by (rule round64_cert[where e = "- 1"]) (simp_all add: r64)

lemma round64_250: "round64 250 = Fin 250"
  by (rule round64_cert[where e = 7]) (simp_all add: r64)

lemma round64_501_2: "round64 (501 / 2) = Fin (501 / 2)"
  by (rule round64_cert[where e = 7]) (simp_all add: r64)

lemma roundToTwo_1_8: "roundToTwo oor (Fin (1 / 8)) = Fin (1170935903116329 / 9007199254740992)"
  by (simp add: roundToTwo_def round64_25_2 round64_13 int_of_float64_def trunc_def
      float64_of_int_def round64_13_100)

lemma roundToTwo_1_256: "roundToTwo oor (Fin (1 / 256)) = Fin 0"
  by (simp add: roundToTwo_def round64_25_64 round64_57_64 int_of_float64_def trunc_def
      floor_rat_numeral_div float64_of_int_def round64_0)

lemma analyzeData_single:
  "field_of (analyzeData oor [x] batchSize) ''median'' = Some (VFloat (roundToTwo oor x))"
  "field_of (analyzeData oor [x] batchSize) ''min'' = Some (VFloat x)"
  "field_of (analyzeData oor [x] batchSize) ''max'' = Some (VFloat x)"
proof -
  have s: "Float64s [x] = [x]" by (simp add: Float64s_def)
  have m: "calculateMedian [x] = Inr x"
    by (simp add: calculateMedian_def len_def index_def signed_modulo_int_def signed_divide_int_def)
  have "[x] \<noteq> []" "length [x] = length [x]" by simp_all
  note a = analyze_stats_ok[OF this m, of oor]
  have r: "analyzeData oor [x] batchSize = analyze_stats oor [x] [x]"
    by (simp add: analyzeData_def len_def s)
  show "field_of (analyzeData oor [x] batchSize) ''median'' = Some (VFloat (roundToTwo oor x))"
    "field_of (analyzeData oor [x] batchSize) ''min'' = Some (VFloat x)"
    "field_of (analyzeData oor [x] batchSize) ''max'' = Some (VFloat x)"
    by (simp_all add: r a field_of_def)
qed

text \<open>
  Claim C1 as stated is about the \<^verbatim>\<open>median\<close> field, which is rounded to two decimals while
  \<^verbatim>\<open>min\<close> and \<^verbatim>\<open>max\<close> are not. For the dataset \<open>[0.125]\<close> the field is 0.13, above the
  maximum 0.125; for \<open>[0.00390625]\<close> it is 0, below the minimum.
\<close>

theorem analyze_median_counterexample:
  "field_of (analyzeData oor_amd64 [Fin (1 / 8)] 10) ''median'' = Some (VFloat (round64 (13 / 100))) \<and>
   field_of (analyzeData oor_amd64 [Fin (1 / 8)] 10) ''max'' = Some (VFloat (Fin (1 / 8))) \<and>
   \<not> fle (round64 (13 / 100)) (Fin (1 / 8)) \<and>
   field_of (analyzeData oor_amd64 [Fin (1 / 256)] 10) ''median'' = Some (VFloat (Fin 0)) \<and>
   field_of (analyzeData oor_amd64 [Fin (1 / 256)] 10) ''min'' = Some (VFloat (Fin (1 / 256))) \<and>
   \<not> fle (Fin (1 / 256)) (Fin 0)"
  by (simp add: analyzeData_single roundToTwo_1_8 roundToTwo_1_256 round64_13_100)

theorem analyze_min_median_max_witness:
  "[Fin 4, Fin 1, Fin 3, Fin 2] \<noteq> [] \<and>
   small_double (Fin 4) \<and> small_double (Fin 1) \<and> small_double (Fin 3) \<and> small_double (Fin 2) \<and>
   field_of (analyzeData oor_amd64 [Fin 4, Fin 1, Fin 3, Fin 2] 10) ''min'' = Some (VFloat (Fin 1)) \<and>
   field_of (analyzeData oor_amd64 [Fin 4, Fin 1, Fin 3, Fin 2] 10) ''max'' = Some (VFloat (Fin 4)) \<and>
   calculateMedian (Float64s [Fin 4, Fin 1, Fin 3, Fin 2]) = Inr (Fin (5 / 2)) \<and>
   field_of (analyzeData oor_amd64 [Fin 4, Fin 1, Fin 3, Fin 2] 10) ''median'' = Some (VFloat (Fin (5 / 2))) \<and>
   - (10 ^ 6) \<le> (1::rat) \<and> (4::rat) \<le> 10 ^ 6 \<and> (0::rat) \<le> 1 \<and>
   (1::rat) - 1 / 200 - 1 / 10 ^ 9 \<le> 5 / 2 \<and> (5 / 2 :: rat) \<le> 4 + 1 / 200 + 1 / 10 ^ 9"
proof -
  let ?d = "[Fin 4, Fin 1, Fin 3, Fin 2]"
  have h1: "?d \<noteq> []" by simp
  have s: "small_double (Fin 4)" "small_double (Fin 1)" "small_double (Fin 3)" "small_double (Fin 2)"
    by (simp_all add: small_double_def round64_1 round64_2 round64_3 round64_4)
  then have h2: "\<forall>x \<in> set ?d. small_double x" by simp
  have srt: "Float64s ?d = [Fin 1, Fin 2, Fin 3, Fin 4]"
    by (simp add: Float64s_def)
  have med: "calculateMedian (Float64s ?d) = Inr (Fin (5 / 2))"
    by (simp add: srt calculateMedian_def len_def index_def then_do_def
        signed_modulo_int_def signed_divide_int_def round64_5 round64_5_2)
  have r: "roundToTwo oor_amd64 (Fin (5 / 2)) = Fin (5 / 2)"
    by (simp add: roundToTwo_def round64_250 round64_501_2 int_of_float64_def trunc_def
        floor_rat_numeral_div float64_of_int_def round64_5_2)
  from analyze_min_median_max[OF h1 h2, of oor_amd64 10]
  obtain lo m hi where
    t: "field_of (analyzeData oor_amd64 ?d 10) ''min'' = Some (VFloat (Fin lo))"
       "field_of (analyzeData oor_amd64 ?d 10) ''max'' = Some (VFloat (Fin hi))"
       "calculateMedian (Float64s ?d) = Inr (Fin m)"
       "field_of (analyzeData oor_amd64 ?d 10) ''median'' = Some (VFloat (roundToTwo oor_amd64 (Fin m)))"
       "Fin lo \<in> set ?d" "Fin hi \<in> set ?d" "lo \<le> m" "m \<le> hi"
       "\<forall>x \<in> set ?d. fle (Fin lo) x \<and> fle x (Fin hi)"
       "- (10 ^ 6) \<le> lo \<and> hi \<le> 10 ^ 6 \<longrightarrow>
        (\<exists>median. field_of (analyzeData oor_amd64 ?d 10) ''median'' = Some (VFloat (Fin median)) \<and>
           m - 1 / 200 - 1 / 10 ^ 9 \<le> median \<and> median \<le> m + 3 / 200 + 1 / 10 ^ 9 \<and>
           lo - 1 / 200 - 1 / 10 ^ 9 \<le> median \<and> median \<le> hi + 3 / 200 + 1 / 10 ^ 9 \<and>
           (0 \<le> lo \<longrightarrow> median \<le> m + 1 / 200 + 1 / 10 ^ 9 \<and>
                      median \<le> hi + 1 / 200 + 1 / 10 ^ 9))"
    by blast
  from t(3) med have m: "m = 5 / 2" by simp
  from t(9) have "lo \<le> 1" "4 \<le> hi" by simp_all
  moreover from t(5,6) have "1 \<le> lo" "hi \<le> 4" by auto
  ultimately have lh: "lo = 1" "hi = 4" by simp_all
  have f: "field_of (analyzeData oor_amd64 ?d 10) ''median'' = Some (VFloat (Fin (5 / 2)))"
    using t(4) by (simp add: m r)
  have b: "- (10 ^ 6) \<le> (1::rat)" "(4::rat) \<le> 10 ^ 6" "(0::rat) \<le> 1" by simp_all
  from t(10) have "\<exists>median. Fin (5 / 2) = Fin median \<and>
           1 - 1 / 200 - 1 / 10 ^ 9 \<le> median \<and> median \<le> 4 + 1 / 200 + 1 / 10 ^ 9"
    unfolding lh m f using b by auto
  then have c: "(1::rat) - 1 / 200 - 1 / 10 ^ 9 \<le> 5 / 2" "(5 / 2 :: rat) \<le> 4 + 1 / 200 + 1 / 10 ^ 9"
    by auto
  from h1 s t(1,2) f med b c show ?thesis by (simp add: lh)
qed

lemma round64_e17: "round64 100000000000000000 = Fin 100000000000000000"
  by (rule round64_cert[where e = 56]) (simp_all add: r64)

lemma round64_e19: "round64 10000000000000000000 = Fin 10000000000000000000"
  by (rule round64_cert[where e = 63]) (simp_all add: r64)

lemma round64_e19_half: "round64 (20000000000000000001 / 2) = Fin 10000000000000000000"
  by (rule round64_cert[where e = 63]) (simp_all add: r64)

lemma round64_min_int: "round64 (- 9223372036854775808) = Fin (- 9223372036854775808)"
  by (rule round64_cert[where e = 63]) (simp_all add: r64)

lemma round64_min_int_100:
  "round64 (- (2305843009213693952 / 25)) = Fin (- 92233720368547760)"
  by (rule round64_cert[where e = 56]) (simp_all add: r64)

lemma roundToTwo_e17:
  "roundToTwo oor_amd64 (Fin 100000000000000000) = Fin (- 92233720368547760)"
  by (simp add: roundToTwo_def round64_e19 round64_e19_half int_of_float64_def trunc_def
      oor_amd64_def float64_of_int_def round64_min_int round64_min_int_100)

text \<open>
  The bound on the \<^verbatim>\<open>median\<close> field needs a bound on the magnitude. For the dataset
  \<open>[10\<^sup>1\<^sup>7]\<close> the product with 100 is beyond the range of \<^verbatim>\<open>int\<close>, the conversion
  yields the smallest \<^verbatim>\<open>int\<close> on amd64, and the field is \<open>-92233720368547760\<close>, far below
  the minimum.
\<close>

lemma analyze_median_out_of_range:
  "small_double (Fin 100000000000000000) \<and>
   field_of (analyzeData oor_amd64 [Fin 100000000000000000] 10) ''min'' =
     Some (VFloat (Fin 100000000000000000)) \<and>
   field_of (analyzeData oor_amd64 [Fin 100000000000000000] 10) ''median'' =
     Some (VFloat (Fin (- 92233720368547760)))"
  by (simp add: analyzeData_single roundToTwo_e17 small_double_def round64_e17)

lemma round64_overflow: "round64 (2 ^ 1023 + 2 ^ 1023) = PInf"
proof -
  have "round_fin (2 ^ 1023 + 2 ^ 1023) = 2 ^ 1024"
    by (subst round_fin_cert[where e = 1024]) (simp_all add: r64)
  then show ?thesis by (simp add: round64_alt)
qed

lemma calculateMedian_pair: "calculateMedian [x, y] = Inr (fdiv (fadd x y) (Fin 2))"
  by (simp add: calculateMedian_def len_def index_def then_do_def
      signed_modulo_int_def signed_divide_int_def)

lemma Float64s_pair_same: "Float64s [x, x] = [x, x]"
  by (simp add: Float64s_def)

text \<open>
  The bound on the magnitude cannot be dropped: the sum of the two middle values of
  \<open>[2 ^ 1023, 2 ^ 1023]\<close> overflows and the median is \<open>+Inf\<close>, above the maximum. The
  largest binary64 value below \<open>2 ^ 1023\<close> is within the bound.
\<close>

theorem calculateMedian_overflow:
  "small_double (Fin (2 ^ 1023 - 2 ^ 970)) \<and> \<not> small_double (Fin (2 ^ 1023)) \<and>
   calculateMedian (Float64s [Fin (2 ^ 1023), Fin (2 ^ 1023)]) = Inr PInf"
proof -
  have "round64 (2 ^ 1023 - 2 ^ 970) = Fin (2 ^ 1023 - 2 ^ 970)"
    by (rule round64_cert[where e = 1022]) (simp_all add: r64)
  then have "small_double (Fin (2 ^ 1023 - 2 ^ 970))" by (simp add: small_double_def)
  moreover have "\<not> small_double (Fin (2 ^ 1023))" by (simp add: small_double_def)
  moreover have "calculateMedian (Float64s [Fin (2 ^ 1023), Fin (2 ^ 1023)]) = Inr PInf"
  proof -
    have "fadd (Fin (2 ^ 1023)) (Fin (2 ^ 1023)) = PInf"
      by (simp only: fadd.simps round64_overflow)
    moreover have "fdiv PInf (Fin 2) = PInf"
      by (simp add: signed_inf_def)
    ultimately show ?thesis
      by (simp only: Float64s_pair_same calculateMedian_pair)
  qed
  ultimately show ?thesis by blast
qed

end
